theory Spec2Isabelle
  imports Complex_Main "HOL-Library.Word"
begin

unbundle bit_operations_syntax

section \<open>H5 three-wire UART framing (rtk_firmware_loader.py)\<close>

text \<open>
  Python \<open>bytes\<close> are lists of 8-bit words.  The \<open>H5Protocol\<close> object carries the
  outbound sequence number and the acknowledgement number; both methods mutate it, so
  each function returns its result together with the state it leaves behind (the state
  is returned on the error path too, since an exception does not undo earlier writes).
\<close>

type_synonym byte = "8 word"

datatype H5PacketType =
  ACK | HCI_COMMAND | HCI_ACLDATA | HCI_SCODATA | HCI_EVENT | VENDOR | LINK_CONTROL

fun pkt_type_value :: "H5PacketType \<Rightarrow> int" where
  "pkt_type_value ACK = 0x00"
| "pkt_type_value HCI_COMMAND = 0x01"
| "pkt_type_value HCI_ACLDATA = 0x02"
| "pkt_type_value HCI_SCODATA = 0x03"
| "pkt_type_value HCI_EVENT = 0x04"
| "pkt_type_value VENDOR = 0x0E"
| "pkt_type_value LINK_CONTROL = 0x0F"

text \<open>The enum constructor \<open>H5PacketType(v)\<close>: \<open>None\<close> stands for its ValueError.\<close>

definition H5PacketType_of :: "int \<Rightarrow> H5PacketType option" where
  "H5PacketType_of v =
     (if v = 0x00 then Some ACK
      else if v = 0x01 then Some HCI_COMMAND
      else if v = 0x02 then Some HCI_ACLDATA
      else if v = 0x03 then Some HCI_SCODATA
      else if v = 0x04 then Some HCI_EVENT
      else if v = 0x0E then Some VENDOR
      else if v = 0x0F then Some LINK_CONTROL
      else None)"

record H5Protocol =
  seq_num :: int
  ack_num :: int

definition h5_init :: H5Protocol where
  "h5_init = \<lparr>seq_num = 0, ack_num = 0\<rparr>"

datatype h5_error =
  InvalidH5Packet      \<comment> \<open>ValueError("Invalid H5 packet")\<close>
| ChecksumMismatch     \<comment> \<open>ValueError("Checksum mismatch")\<close>
| InvalidPacketType    \<comment> \<open>ValueError of the enum constructor\<close>
| ByteOutOfRange       \<comment> \<open>ValueError of a bytearray store outside range(256)\<close>

definition xor_all :: "byte list \<Rightarrow> byte" where
  "xor_all bs = fold (\<lambda>b checksum. checksum XOR b) bs 0"

definition create_packet ::
  "H5Protocol \<Rightarrow> H5PacketType \<Rightarrow> byte list \<Rightarrow> (h5_error + byte list) \<times> H5Protocol" where
  "create_packet s pkt_type payload =
     (let h1 = push_bit 3 (seq_num s) OR (ack_num s AND 0x07) in
      if h1 < 0 \<or> 255 < h1 then (Inl ByteOutOfRange, s)
      else
        let header = [0xC0, word_of_int h1,
                      word_of_int (pkt_type_value pkt_type AND 0x0F),
                      word_of_int (int (length payload) AND 0xFF)] :: byte list;
            checksum = xor_all (tl header @ payload);
            packet = header @ payload @ [checksum, 0xC0]
        in (Inr packet, s\<lparr>seq_num := (seq_num s + 1) mod 8\<rparr>))"

definition parse_packet ::
  "H5Protocol \<Rightarrow> byte list \<Rightarrow> (h5_error + H5PacketType \<times> byte list) \<times> H5Protocol" where
  "parse_packet s data =
     (let n = length data in
      if n < 6 \<or> data ! 0 \<noteq> 0xC0 \<or> data ! (n - 1) \<noteq> 0xC0
      then (Inl InvalidH5Packet, s)
      else
        let seq = drop_bit 3 (data ! 1) AND 0x07;
            pkt_type = data ! 2 AND 0x0F;
            payload = drop 4 (take (n - 2) data);
            checksum = data ! (n - 2);
            calc_checksum = xor_all (drop 1 (take (n - 2) data))
        in if calc_checksum \<noteq> checksum then (Inl ChecksumMismatch, s)
           else
             let s' = s\<lparr>ack_num := uint seq\<rparr> in
             (case H5PacketType_of (uint pkt_type) of
                None \<Rightarrow> (Inl InvalidPacketType, s')
              | Some t \<Rightarrow> (Inr (t, payload), s')))"

text \<open>The sequence number is kept in \<open>0..7\<close> by \<open>create_packet\<close> itself.\<close>

definition h5_inv :: "H5Protocol \<Rightarrow> bool" where
  "h5_inv s \<longleftrightarrow> 0 \<le> seq_num s \<and> seq_num s < 8"

section \<open>Auto-connect retry logic (auto_connect_manager.py)\<close>

text \<open>
  Python floats are idealised as real numbers and \<open>datetime\<close> values as real time
  stamps; \<open>datetime.now()\<close> and \<open>time.time()\<close> are read from parameters.  The
  integer counters are Python's unbounded integers.
\<close>

datatype ConnectionState =
  DISCONNECTED_conn | CONNECTING_conn | CONNECTED_conn | RECONNECTING_conn | FAILED_conn
| PAUSED_conn

datatype ConnectionPriority = HIGH | MEDIUM | LOW

datatype RetryStrategy = EXPONENTIAL_BACKOFF | FIXED_INTERVAL | LINEAR_BACKOFF

record ConnectionConfig =
  max_retries :: int
  initial_retry_delay :: real
  max_retry_delay :: real
  retry_strategy :: RetryStrategy
  connection_timeout :: real
  stability_check_interval :: real
  reconnect_on_failure :: bool
  health_check_interval :: real
  max_consecutive_failures :: int
  priority :: ConnectionPriority
  max_concurrent_connections :: int

text \<open>The dataclass defaults.\<close>

definition default_config :: ConnectionConfig where
  "default_config =
     \<lparr>max_retries = 5, initial_retry_delay = 1.0, max_retry_delay = 60.0,
      retry_strategy = EXPONENTIAL_BACKOFF, connection_timeout = 30.0,
      stability_check_interval = 10.0, reconnect_on_failure = True,
      health_check_interval = 30.0, max_consecutive_failures = 3, priority = MEDIUM,
      max_concurrent_connections = 5\<rparr>"

record ConnectionMetrics =
  total_attempts :: int
  successful_connections :: int
  failed_connections :: int
  last_connected :: "real option"
  last_failure :: "real option"
  average_connection_time :: real
  connection_uptime :: real
  stability_score :: real
  consecutive_failures :: int

definition new_metrics :: ConnectionMetrics where
  "new_metrics =
     \<lparr>total_attempts = 0, successful_connections = 0, failed_connections = 0,
      last_connected = None, last_failure = None, average_connection_time = 0.0,
      connection_uptime = 0.0, stability_score = 0.0, consecutive_failures = 0\<rparr>"

record ManagedConnection =
  address :: string
  config :: ConnectionConfig
  state_conn :: ConnectionState
  metrics :: ConnectionMetrics
  retry_count :: int
  connection_start_time :: "real option"
  last_activity :: "real option"
  is_enabled :: bool
  pause_until :: "real option"

text \<open>\<open>ManagedConnection.__init__\<close>\<close>

definition new_connection :: "string \<Rightarrow> ConnectionConfig \<Rightarrow> ManagedConnection" where
  "new_connection addr cfg =
     \<lparr>address = addr, config = cfg, state_conn = DISCONNECTED_conn, metrics = new_metrics,
      retry_count = 0, connection_start_time = None, last_activity = None,
      is_enabled = True, pause_until = None\<rparr>"

text \<open>
  \<open>2 ** retry_count\<close> on a Python integer: a power of two for a non-negative
  exponent and its reciprocal for a negative one, which is \<open>powi\<close>.
\<close>

definition calculate_retry_delay :: "ManagedConnection \<Rightarrow> real" where
  "calculate_retry_delay c =
     (let delay =
        (if retry_strategy (config c) = EXPONENTIAL_BACKOFF
         then initial_retry_delay (config c) * (2 powi retry_count c)
         else if retry_strategy (config c) = LINEAR_BACKOFF
         then initial_retry_delay (config c) * of_int (1 + retry_count c)
         else initial_retry_delay (config c))
      in min delay (max_retry_delay (config c)))"

datatype py_error = ZeroDivisionError | ValueError | IndexError

text \<open>
  \<open>update_metrics\<close> mutates the metrics field by field and divides at the end, so it
  returns the state it has reached together with the exception it raised, if any.
  \<open>now\<close> is the value of \<open>datetime.now()\<close>.
\<close>

definition update_metrics ::
  "real \<Rightarrow> bool \<Rightarrow> real option \<Rightarrow> ManagedConnection \<Rightarrow> py_error option \<times> ManagedConnection" where
  "update_metrics now success connection_time c =
     (let m0 = metrics c;
          m1 = m0\<lparr>total_attempts := total_attempts m0 + 1\<rparr>
      in
      if success then
        let m2 = m1\<lparr>successful_connections := successful_connections m1 + 1,
                     last_connected := Some now,
                     consecutive_failures := 0\<rparr>
        in (case (if connection_time = Some 0 then None else connection_time) of
              Some t \<Rightarrow>
                let total_time = average_connection_time m2
                                   * of_int (successful_connections m2 - 1)
                in if successful_connections m2 = 0
                   then (Some ZeroDivisionError, c\<lparr>metrics := m2\<rparr>)
                   else
                     let m3 = m2\<lparr>average_connection_time :=
                                     (total_time + t) / of_int (successful_connections m2)\<rparr>
                     in if total_attempts m3 = 0
                        then (Some ZeroDivisionError, c\<lparr>metrics := m3\<rparr>)
                        else (None, c\<lparr>metrics := m3\<lparr>stability_score :=
                                of_int (successful_connections m3) / of_int (total_attempts m3)\<rparr>\<rparr>)
            | None \<Rightarrow>
                if total_attempts m2 = 0
                then (Some ZeroDivisionError, c\<lparr>metrics := m2\<rparr>)
                else (None, c\<lparr>metrics := m2\<lparr>stability_score :=
                        of_int (successful_connections m2) / of_int (total_attempts m2)\<rparr>\<rparr>))
      else
        let m2 = m1\<lparr>failed_connections := failed_connections m1 + 1,
                     last_failure := Some now,
                     consecutive_failures := consecutive_failures m1 + 1\<rparr>
        in if total_attempts m2 = 0
           then (Some ZeroDivisionError, c\<lparr>metrics := m2\<rparr>)
           else (None, c\<lparr>metrics := m2\<lparr>stability_score :=
                   of_int (successful_connections m2) / of_int (total_attempts m2)\<rparr>\<rparr>))"

definition should_retry :: "real \<Rightarrow> ManagedConnection \<Rightarrow> bool" where
  "should_retry now c =
     (if \<not> is_enabled c then False
      else if (case pause_until c of None \<Rightarrow> False | Some p \<Rightarrow> now < p) then False
      else if retry_count c \<ge> max_retries (config c) then False
      else if consecutive_failures (metrics c) \<ge> max_consecutive_failures (config c) then False
      else True)"

text \<open>
  \<open>AutoConnectManager._attempt_connection\<close> for one managed connection.  The awaited
  \<open>ble_interface.connect\<close> is the parameter \<open>outcome\<close>: it returns a truth value, runs
  into the timeout, or raises something else.  The events passed to \<open>_emit_event\<close> are
  collected in order.  \<open>t0\<close> and \<open>t1\<close> are the readings of \<open>time.time()\<close> before and
  after the attempt.
\<close>

datatype connect_outcome = Returned bool | TimedOut | Raised

datatype conn_event =
  connection_attempt int                \<comment> \<open>retry_count\<close>
| connection_success real int           \<comment> \<open>connection_time, retry_count\<close>
| connection_failed int real            \<comment> \<open>retry_count, next_retry_delay\<close>
| connection_timeout_event int real     \<comment> \<open>retry_count, timeout\<close>
| connection_error int                  \<comment> \<open>retry_count\<close>

text \<open>The body of the handler \<open>except Exception\<close>; an exception raised in it propagates.\<close>

definition attempt_except ::
  "real \<Rightarrow> conn_event list \<Rightarrow> ManagedConnection
     \<Rightarrow> py_error option \<times> conn_event list \<times> ManagedConnection" where
  "attempt_except now evs c =
     (let c1 = c\<lparr>state_conn := FAILED_conn, retry_count := retry_count c + 1\<rparr> in
      case update_metrics now False None c1 of
        (Some e, c2) \<Rightarrow> (Some e, evs, c2)
      | (None, c2) \<Rightarrow> (None, evs @ [connection_error (retry_count c2)], c2))"

definition attempt_connection ::
  "real \<Rightarrow> real \<Rightarrow> real \<Rightarrow> connect_outcome \<Rightarrow> ManagedConnection
     \<Rightarrow> py_error option \<times> conn_event list \<times> ManagedConnection" where
  "attempt_connection t0 t1 now outcome c =
     (let c0 = c\<lparr>state_conn := CONNECTING_conn, connection_start_time := Some t0\<rparr>;
          evs = [connection_attempt (retry_count c0)]
      in
      case outcome of
        Returned is_connected \<Rightarrow>
          (let connection_time = t1 - t0 in
           if is_connected then
             (let c1 = c0\<lparr>state_conn := CONNECTED_conn, retry_count := 0, last_activity := Some now\<rparr>
              in case update_metrics now True (Some connection_time) c1 of
                   (Some e, c2) \<Rightarrow> attempt_except now evs c2
                 | (None, c2) \<Rightarrow>
                     (None, evs @ [connection_success connection_time (retry_count c2)], c2))
           else
             (let c1 = c0\<lparr>state_conn := FAILED_conn, retry_count := retry_count c0 + 1\<rparr>
              in case update_metrics now False None c1 of
                   (Some e, c2) \<Rightarrow> attempt_except now evs c2
                 | (None, c2) \<Rightarrow>
                     (None, evs @ [connection_failed (retry_count c2) (calculate_retry_delay c2)],
                      c2)))
      | TimedOut \<Rightarrow>
          (let c1 = c0\<lparr>state_conn := FAILED_conn, retry_count := retry_count c0 + 1\<rparr>
           in case update_metrics now False None c1 of
                (Some e, c2) \<Rightarrow> (Some e, evs, c2)
              | (None, c2) \<Rightarrow>
                  (None, evs @ [connection_timeout_event (retry_count c2)
                                  (connection_timeout (config c2))], c2))
      | Raised \<Rightarrow> attempt_except now evs c0)"

text \<open>The state a call leaves behind, whether it returned or raised.\<close>

definition conn_after :: "py_error option \<times> conn_event list \<times> ManagedConnection \<Rightarrow> ManagedConnection" where
  "conn_after r = snd (snd r)"

text \<open>
  Successive attempts on one connection.  An exception that leaves
  \<open>_attempt_connection\<close> is caught by the loop of \<open>_connection_manager\<close>, which goes
  on with the connection as it is.
\<close>

fun run_attempts :: "(real \<times> real \<times> real \<times> connect_outcome) list \<Rightarrow> ManagedConnection \<Rightarrow> ManagedConnection" where
  "run_attempts [] c = c"
| "run_attempts ((t0, t1, now, outcome) # rest) c =
     run_attempts rest (conn_after (attempt_connection t0 t1 now outcome c))"

text \<open>The configuration of the retry scenario: three retries, the other defaults.\<close>

definition scenario_config :: ConnectionConfig where
  "scenario_config = default_config\<lparr>max_retries := 3\<rparr>"

section \<open>HFP protocol handler (hfp_handler.py)\<close>

subsection \<open>The string operations the handler uses\<close>

text \<open>
  Command strings are lists of characters; AT commands are ASCII, and the character
  classes below are those of Python on ASCII characters.
\<close>

definition is_space :: "char \<Rightarrow> bool" where
  "is_space c \<longleftrightarrow> (let n = (of_char c :: nat) in (9 \<le> n \<and> n \<le> 13) \<or> (28 \<le> n \<and> n \<le> 32))"

definition is_digit :: "char \<Rightarrow> bool" where
  "is_digit c \<longleftrightarrow> (let n = (of_char c :: nat) in 48 \<le> n \<and> n \<le> 57)"

definition digit_value :: "char \<Rightarrow> int" where
  "digit_value c = int (of_char c) - 48"

text \<open>\<open>\w\<close> of the \<open>re\<close> module: letters, digits and the underscore.\<close>

definition is_word_char :: "char \<Rightarrow> bool" where
  "is_word_char c \<longleftrightarrow>
     (let n = (of_char c :: nat) in
        (48 \<le> n \<and> n \<le> 57) \<or> (65 \<le> n \<and> n \<le> 90) \<or> (97 \<le> n \<and> n \<le> 122) \<or> n = 95)"

text \<open>The character class \<open>[0-9,-]\<close>.\<close>

definition is_range_char :: "char \<Rightarrow> bool" where
  "is_range_char c \<longleftrightarrow> is_digit c \<or> c = CHR '','' \<or> c = CHR ''-''"

text \<open>\<open>str.strip()\<close>\<close>

definition strip :: "string \<Rightarrow> string" where
  "strip s = rev (dropWhile is_space (rev (dropWhile is_space s)))"

text \<open>\<open>str.startswith(p)\<close>\<close>

definition startswith :: "string \<Rightarrow> string \<Rightarrow> bool" where
  "startswith s p \<longleftrightarrow> take (length p) s = p"

text \<open>\<open>str.split(sep)\<close> for a separator of one character; \<open>cur\<close> is the piece being read.\<close>

fun split_on :: "char \<Rightarrow> string \<Rightarrow> string \<Rightarrow> string list" where
  "split_on sep cur [] = [cur]"
| "split_on sep cur (x # xs) =
     (if x = sep then cur # split_on sep [] xs else split_on sep (cur @ [x]) xs)"

definition split :: "string \<Rightarrow> char \<Rightarrow> string list" where
  "split s sep = split_on sep [] s"

text \<open>
  \<open>int(s)\<close> in base ten: surrounding white space, one optional sign, then digits in
  groups joined by single underscores.  \<open>None\<close> is its ValueError; \<open>0x80\<close> is not a
  decimal literal.
\<close>

fun parse_digits :: "string \<Rightarrow> int \<Rightarrow> bool \<Rightarrow> int option" where
  "parse_digits [] acc after_digit = (if after_digit then Some acc else None)"
| "parse_digits (c # cs) acc after_digit =
     (if is_digit c then parse_digits cs (10 * acc + digit_value c) True
      else if c = CHR ''_'' \<and> after_digit then parse_digits cs acc False
      else None)"

definition py_int :: "string \<Rightarrow> int option" where
  "py_int s =
     (case strip s of
        [] \<Rightarrow> None
      | c # cs \<Rightarrow>
          if c = CHR ''-'' then map_option uminus (parse_digits cs 0 False)
          else if c = CHR ''+'' then parse_digits cs 0 False
          else parse_digits (c # cs) 0 False)"

text \<open>
  One match of the pattern \<open>"(\w+)",\(([0-9,-]+)\)\<close> at the head of a string: the two
  groups and the rest of the string.  Neither the quote nor the closing bracket belongs
  to the class repeated before it, so the greedy match is the only one.
\<close>

definition match_indicator :: "string \<Rightarrow> ((string \<times> string) \<times> string) option" where
  "match_indicator s =
     (case s of
        [] \<Rightarrow> None
      | q # r \<Rightarrow>
          if q \<noteq> CHR 0x22 then None
          else
            let name = takeWhile is_word_char r; r1 = dropWhile is_word_char r in
            if name = [] then None
            else if take 3 r1 \<noteq> [CHR 0x22, CHR '','', CHR ''(''] then None
            else
              let r2 = drop 3 r1;
                  range_str = takeWhile is_range_char r2;
                  r3 = dropWhile is_range_char r2
              in if range_str = [] then None
                 else (case r3 of
                         [] \<Rightarrow> None
                       | p # r4 \<Rightarrow> if p = CHR '')'' then Some ((name, range_str), r4) else None))"

text \<open>\<open>re.findall\<close> for this pattern: leftmost matches, not overlapping.\<close>

function findall_indicators :: "string \<Rightarrow> (string \<times> string) list" where
  "findall_indicators [] = []"
| "findall_indicators (c # cs) =
     (case match_indicator (c # cs) of
        Some (g, rest) \<Rightarrow> g # findall_indicators rest
      | None \<Rightarrow> findall_indicators cs)"
  by pat_completeness auto
termination
proof (relation "measure length")
  show "wf (measure length)" by simp
next
  fix c :: char and cs :: string and x2 :: "(string \<times> string) \<times> string"
    and g :: "string \<times> string" and rest :: string
  assume m: "match_indicator (c # cs) = Some x2" and x2: "(g, rest) = x2"
  have dw: "length (dropWhile P xs) \<le> length xs" for P and xs :: string
    by (induction xs) auto
  define r1 where "r1 = dropWhile is_word_char cs"
  define r3 where "r3 = dropWhile is_range_char (drop 3 r1)"
  from m x2 obtain p where "r3 = p # rest"
    by (cases r3)
      (auto simp: match_indicator_def Let_def r1_def r3_def split: if_splits list.splits)
  then have "length rest < length r3" by simp
  also have "\<dots> \<le> length (drop 3 r1)" unfolding r3_def by (rule dw)
  also have "\<dots> \<le> length r1" by simp
  also have "\<dots> \<le> length cs" unfolding r1_def by (rule dw)
  finally show "(rest, c # cs) \<in> measure length" by simp
next
  fix c :: char and cs :: string
  assume "match_indicator (c # cs) = None"
  show "(cs, c # cs) \<in> measure length" by simp
qed

subsection \<open>The handler's data\<close>

datatype HFPState =
  DISCONNECTED | CONNECTING | SLC_CONNECTING | CONNECTED | AUDIO_CONNECTING | AUDIO_CONNECTED
| DISCONNECTING

text \<open>\<open>state.value\<close>\<close>

fun state_value :: "HFPState \<Rightarrow> string" where
  "state_value DISCONNECTED = ''DISCONNECTED''"
| "state_value CONNECTING = ''CONNECTING''"
| "state_value SLC_CONNECTING = ''SLC_CONNECTING''"
| "state_value CONNECTED = ''CONNECTED''"
| "state_value AUDIO_CONNECTING = ''AUDIO_CONNECTING''"
| "state_value AUDIO_CONNECTED = ''AUDIO_CONNECTED''"
| "state_value DISCONNECTING = ''DISCONNECTING''"

datatype HFPRole = AG | HF

record ATCommand =
  timestamp :: real
  command :: string
  response :: string
  direction :: string
  state_cmd :: HFPState

record HFPFeatures =
  ec_nr :: bool
  three_way_calling :: bool
  cli_presentation :: bool
  voice_recognition :: bool
  remote_volume_control :: bool
  enhanced_call_status :: bool
  enhanced_call_control :: bool
  codec_negotiation :: bool
  hf_indicators :: bool
  esco_s4 :: bool
  ag_three_way_calling :: bool
  ag_ec_nr :: bool
  ag_voice_recognition :: bool
  ag_inband_ringtone :: bool
  ag_voice_tag :: bool
  ag_reject_call :: bool
  ag_enhanced_call_status :: bool
  ag_enhanced_call_control :: bool
  ag_extended_error :: bool
  ag_codec_negotiation :: bool

definition no_features :: HFPFeatures where
  "no_features =
     \<lparr>ec_nr = False, three_way_calling = False, cli_presentation = False,
      voice_recognition = False, remote_volume_control = False,
      enhanced_call_status = False, enhanced_call_control = False,
      codec_negotiation = False, hf_indicators = False, esco_s4 = False,
      ag_three_way_calling = False, ag_ec_nr = False, ag_voice_recognition = False,
      ag_inband_ringtone = False, ag_voice_tag = False, ag_reject_call = False,
      ag_enhanced_call_status = False, ag_enhanced_call_control = False,
      ag_extended_error = False, ag_codec_negotiation = False\<rparr>"

text \<open>One entry of the \<open>indicators\<close> dictionary: \<open>{'range': ..., 'value': ...}\<close>.\<close>

record indicator =
  ind_range :: string
  ind_value :: int

record call_state_view =
  active :: bool
  incoming :: bool
  outgoing :: bool
  number :: "string option"

text \<open>
  \<open>indicators\<close> is a Python dictionary, which keeps its keys in the order of their
  first insertion: an association list with distinct keys.
\<close>

record HFPProtocolHandler =
  role :: HFPRole
  state :: HFPState
  features :: HFPFeatures
  at_command_flow :: "ATCommand list"
  supported_codecs :: "string list"
  selected_codec :: string
  indicators :: "(string \<times> indicator) list"
  call_state :: call_state_view

definition new_handler :: "HFPRole \<Rightarrow> HFPProtocolHandler" where
  "new_handler r =
     \<lparr>role = r, state = DISCONNECTED, features = no_features, at_command_flow = [],
      supported_codecs = [''CVSD''], selected_codec = ''CVSD'', indicators = [],
      call_state = \<lparr>active = False, incoming = False, outgoing = False, number = None\<rparr>\<rparr>"

text \<open>\<open>d[k] = v\<close>: an existing key keeps its place, a new key goes to the end.\<close>

fun dict_set :: "(string \<times> 'v) list \<Rightarrow> string \<Rightarrow> 'v \<Rightarrow> (string \<times> 'v) list" where
  "dict_set [] k v = [(k, v)]"
| "dict_set ((k', v') # d) k v = (if k' = k then (k, v) # d else (k', v') # dict_set d k v)"

text \<open>\<open>d[k]['value'] = v\<close> for a key of the dictionary.\<close>

fun dict_set_value :: "(string \<times> indicator) list \<Rightarrow> string \<Rightarrow> int \<Rightarrow> (string \<times> indicator) list" where
  "dict_set_value [] k v = []"
| "dict_set_value ((k', i) # d) k v =
     (if k' = k then (k', i\<lparr>ind_value := v\<rparr>) # d else (k', i) # dict_set_value d k v)"

text \<open>
  \<open>xs[i]\<close> with Python's indexing: a negative index counts from the end, and an index
  outside \<open>-len .. len-1\<close> raises IndexError.
\<close>

definition py_index :: "'a list \<Rightarrow> int \<Rightarrow> py_error + 'a" where
  "py_index xs i =
     (if 0 \<le> i \<and> i < int (length xs) then Inr (xs ! nat i)
      else if i < 0 \<and> - int (length xs) \<le> i then Inr (xs ! nat (int (length xs) + i))
      else Inl IndexError)"

subsection \<open>Feature masks\<close>

definition parse_hf_features :: "int \<Rightarrow> HFPFeatures \<Rightarrow> HFPFeatures" where
  "parse_hf_features bits f =
     f\<lparr>ec_nr := bits AND 0x01 \<noteq> 0,
       three_way_calling := bits AND 0x02 \<noteq> 0,
       cli_presentation := bits AND 0x04 \<noteq> 0,
       voice_recognition := bits AND 0x08 \<noteq> 0,
       remote_volume_control := bits AND 0x10 \<noteq> 0,
       enhanced_call_status := bits AND 0x20 \<noteq> 0,
       enhanced_call_control := bits AND 0x40 \<noteq> 0,
       codec_negotiation := bits AND 0x80 \<noteq> 0,
       hf_indicators := bits AND 0x100 \<noteq> 0,
       esco_s4 := bits AND 0x200 \<noteq> 0\<rparr>"

definition parse_ag_features :: "int \<Rightarrow> HFPFeatures \<Rightarrow> HFPFeatures" where
  "parse_ag_features bits f =
     f\<lparr>ag_three_way_calling := bits AND 0x01 \<noteq> 0,
       ag_ec_nr := bits AND 0x02 \<noteq> 0,
       ag_voice_recognition := bits AND 0x04 \<noteq> 0,
       ag_inband_ringtone := bits AND 0x08 \<noteq> 0,
       ag_voice_tag := bits AND 0x10 \<noteq> 0,
       ag_reject_call := bits AND 0x20 \<noteq> 0,
       ag_enhanced_call_status := bits AND 0x40 \<noteq> 0,
       ag_enhanced_call_control := bits AND 0x80 \<noteq> 0,
       ag_extended_error := bits AND 0x100 \<noteq> 0,
       ag_codec_negotiation := bits AND 0x200 \<noteq> 0\<rparr>"

subsection \<open>Command handling\<close>

text \<open>
  Every handler returns the exception it raised, if any, and the handler object as it
  is at that point.
\<close>

definition handle_outgoing_command ::
  "string \<Rightarrow> HFPProtocolHandler \<Rightarrow> py_error option \<times> HFPProtocolHandler" where
  "handle_outgoing_command cmd h =
     (if startswith cmd ''AT+BRSF='' then
        (case py_index (split cmd CHR ''='') 1 of
           Inl e \<Rightarrow> (Some e, h)
         | Inr a \<Rightarrow>
             (case py_int a of
                None \<Rightarrow> (Some ValueError, h)
              | Some bits \<Rightarrow>
                  (None, h\<lparr>features := parse_hf_features bits (features h),
                            state := SLC_CONNECTING\<rparr>)))
      else if cmd = ''AT+BAC'' then (None, h\<lparr>state := SLC_CONNECTING\<rparr>)
      else if cmd = ''AT+CIND=?'' then (None, h)
      else if cmd = ''AT+CIND?'' then (None, h)
      else if cmd = ''AT+CMER'' then (None, h\<lparr>state := CONNECTED\<rparr>)
      else if cmd = ''AT+BCC'' then (None, h\<lparr>state := AUDIO_CONNECTING\<rparr>)
      else (None, h))"

text \<open>The loop over the codec list of \<open>+BAC:\<close>.\<close>

fun codec_names :: "string list \<Rightarrow> string list" where
  "codec_names [] = []"
| "codec_names (codec # rest) =
     (if strip codec = ''1'' then ''CVSD'' # codec_names rest
      else if strip codec = ''2'' then ''mSBC'' # codec_names rest
      else codec_names rest)"

text \<open>\<open>_parse_indicators\<close>: every match registers its indicator with value 0.\<close>

fun register_indicators ::
  "(string \<times> string) list \<Rightarrow> (string \<times> indicator) list \<Rightarrow> (string \<times> indicator) list" where
  "register_indicators [] d = d"
| "register_indicators ((name, range_str) # ms) d =
     register_indicators ms (dict_set d name \<lparr>ind_range = range_str, ind_value = 0\<rparr>)"

definition parse_indicators :: "string \<Rightarrow> HFPProtocolHandler \<Rightarrow> HFPProtocolHandler" where
  "parse_indicators cind_response h =
     h\<lparr>indicators := register_indicators (findall_indicators cind_response) (indicators h)\<rparr>"

definition handle_indicator_event ::
  "string \<Rightarrow> HFPProtocolHandler \<Rightarrow> py_error option \<times> HFPProtocolHandler" where
  "handle_indicator_event ciev_command h =
     (let parts = split ciev_command CHR '':'' in
      if length parts > 1 then
        let ind_val = split (parts ! 1) CHR '','' in
        if length ind_val = 2 then
          (case py_int (ind_val ! 0) of
             None \<Rightarrow> (Some ValueError, h)
           | Some indicator_idx \<Rightarrow>
               (case py_int (ind_val ! 1) of
                  None \<Rightarrow> (Some ValueError, h)
                | Some v \<Rightarrow>
                    let ind_names = map fst (indicators h) in
                    if indicator_idx \<le> int (length ind_names) then
                      (case py_index ind_names (indicator_idx - 1) of
                         Inl e \<Rightarrow> (Some e, h)
                       | Inr ind_name \<Rightarrow>
                           let h1 = h\<lparr>indicators := dict_set_value (indicators h) ind_name v\<rparr> in
                           if ind_name = ''call''
                           then (None, h1\<lparr>call_state := (call_state h1)\<lparr>active := (v = 1)\<rparr>\<rparr>)
                           else if ind_name = ''callsetup''
                           then (None, h1\<lparr>call_state :=
                                   (call_state h1)\<lparr>incoming := (v = 1), outgoing := (v = 2)\<rparr>\<rparr>)
                           else (None, h1))
                    else (None, h)))
        else (None, h)
      else (None, h))"

definition handle_incoming_command ::
  "string \<Rightarrow> string \<Rightarrow> HFPProtocolHandler \<Rightarrow> py_error option \<times> HFPProtocolHandler" where
  "handle_incoming_command cmd resp h =
     (if startswith cmd ''+BRSF:'' then
        (case py_index (split cmd CHR '':'') 1 of
           Inl e \<Rightarrow> (Some e, h)
         | Inr a \<Rightarrow>
             (case py_int a of
                None \<Rightarrow> (Some ValueError, h)
              | Some bits \<Rightarrow> (None, h\<lparr>features := parse_ag_features bits (features h)\<rparr>)))
      else if startswith cmd ''+BAC:'' then
        (case py_index (split cmd CHR '':'') 1 of
           Inl e \<Rightarrow> (Some e, h)
         | Inr a \<Rightarrow> (None, h\<lparr>supported_codecs := codec_names (split a CHR '','')\<rparr>))
      else if startswith cmd ''+BCS:'' then
        (case py_index (split cmd CHR '':'') 1 of
           Inl e \<Rightarrow> (Some e, h)
         | Inr a \<Rightarrow>
             (case py_int a of
                None \<Rightarrow> (Some ValueError, h)
              | Some codec_id \<Rightarrow>
                  (None, h\<lparr>selected_codec := (if codec_id = 2 then ''mSBC'' else ''CVSD''),
                            state := AUDIO_CONNECTED\<rparr>)))
      else if startswith cmd ''+CIND:'' then (None, parse_indicators cmd h)
      else if startswith cmd ''+CIEV:'' then handle_indicator_event cmd h
      else (None, h))"

text \<open>
  \<open>process_at_command\<close>; \<open>now\<close> is the reading of \<open>time.time()\<close>.  The entry is
  appended before the command is parsed, so it stays in the flow when the parsing raises.
\<close>

definition process_at_command ::
  "real \<Rightarrow> string \<Rightarrow> string \<Rightarrow> string \<Rightarrow> HFPProtocolHandler
     \<Rightarrow> py_error option \<times> HFPProtocolHandler" where
  "process_at_command now cmd resp dir h =
     (let at_cmd = \<lparr>timestamp = now, command = strip cmd, response = strip resp,
                     direction = dir, state_cmd = state h\<rparr>;
          h1 = h\<lparr>at_command_flow := at_command_flow h @ [at_cmd]\<rparr>
      in if dir = ''TX'' then handle_outgoing_command cmd h1
         else handle_incoming_command cmd resp h1)"

text \<open>
  A trace of calls \<open>(now, command, response, direction)\<close>, made one after the other;
  the first exception ends it.
\<close>

fun process_trace ::
  "(real \<times> string \<times> string \<times> string) list \<Rightarrow> HFPProtocolHandler
     \<Rightarrow> py_error option \<times> HFPProtocolHandler" where
  "process_trace [] h = (None, h)"
| "process_trace ((now, cmd, resp, dir) # rest) h =
     (case process_at_command now cmd resp dir h of
        (Some e, h') \<Rightarrow> (Some e, h')
      | (None, h') \<Rightarrow> process_trace rest h')"

subsection \<open>Failure analysis\<close>

text \<open>
  The entries of \<open>likely_issues\<close>: fixed texts, and the text built from the average
  delay, kept as the number it formats.
\<close>

datatype issue = Issue string | Slow_command_response real

record flow_entry =
  fe_time :: real
  fe_command :: string
  fe_direction :: string
  fe_state :: string

record analysis =
  last_state :: string
  total_commands :: nat
  an_codec_negotiation :: bool
  an_selected_codec :: string
  an_supported_codecs :: "string list"
  likely_issues :: "issue list"
  command_flow :: "flow_entry list"

text \<open>The delays between consecutive commands, for \<open>i\<close> from 1 on.\<close>

fun cmd_delays :: "ATCommand list \<Rightarrow> real list" where
  "cmd_delays (a # b # rest) = (timestamp b - timestamp a) # cmd_delays (b # rest)"
| "cmd_delays _ = []"

definition analyze_failure :: "HFPProtocolHandler \<Rightarrow> analysis" where
  "analyze_failure h =
     (let flow = at_command_flow h;
          issues1 =
            (if state h = SLC_CONNECTING then
               [Issue ''Service Level Connection failed''] @
               (if codec_negotiation (features h)
                   \<and> \<not> list_ex (\<lambda>c. startswith (command c) ''+BCS'') flow
                then [Issue ''Codec negotiation incomplete''] else [])
             else if state h = AUDIO_CONNECTING then
               [Issue ''SCO audio connection failed''] @
               (if ''mSBC'' \<in> set (supported_codecs h) \<and> selected_codec h = ''CVSD''
                then [Issue ''mSBC available but not selected''] else [])
             else []);
          issues2 =
            (if length flow > 1 then
               let delays = cmd_delays flow;
                   avg_delay = sum_list delays / real (length delays)
               in if avg_delay > 1.0 then [Slow_command_response avg_delay] else []
             else [])
      in \<lparr>last_state = state_value (state h),
           total_commands = length flow,
           an_codec_negotiation =
             (codec_negotiation (features h) \<and> ag_codec_negotiation (features h)),
           an_selected_codec = selected_codec h,
           an_supported_codecs = supported_codecs h,
           likely_issues = issues1 @ issues2,
           command_flow =
             map (\<lambda>c. \<lparr>fe_time = (if flow \<noteq> [] then timestamp c - timestamp (hd flow) else 0),
                        fe_command = command c, fe_direction = direction c,
                        fe_state = state_value (state_cmd c)\<rparr>)
                 (drop (length flow - 10) flow)\<rparr>)"

subsection \<open>The stall-diagnosis scenario\<close>

text \<open>
  The command trace of the scenario as it is written, with the feature masks in
  hexadecimal notation, and the same trace with the masks in decimal and arbitrary
  time stamps.
\<close>

definition scenario_trace :: "(real \<times> string \<times> string \<times> string) list" where
  "scenario_trace =
     [(0, ''AT+BRSF=0x80'', [], ''TX''),
      (0.1, ''+BRSF:0x200'', [], ''RX''),
      (0.2, ''AT+BAC=1,2'', [], ''TX''),
      (0.3, ''AT+CIND=?'', [], ''TX''),
      (0.4, ''+CIND: (\"call\",(0,1)),(\"callsetup\",(0-3))'', [], ''RX''),
      (0.5, ''AT+CMER=3,0,0,1'', [], ''TX'')]"

definition decimal_trace :: "real \<Rightarrow> real \<Rightarrow> real \<Rightarrow> real \<Rightarrow> real \<Rightarrow> real \<Rightarrow> (real \<times> string \<times> string \<times> string) list" where
  "decimal_trace t0 t1 t2 t3 t4 t5 =
     [(t0, ''AT+BRSF=128'', [], ''TX''),
      (t1, ''+BRSF:512'', [], ''RX''),
      (t2, ''AT+BAC=1,2'', [], ''TX''),
      (t3, ''AT+CIND=?'', [], ''TX''),
      (t4, ''+CIND: (\"call\",(0,1)),(\"callsetup\",(0-3))'', [], ''RX''),
      (t5, ''AT+CMER=3,0,0,1'', [], ''TX'')]"

section \<open>Hex dump of the packet inspector (packet_inspector.py)\<close>

text \<open>\<open>range(start, stop, step)\<close> for a positive step.\<close>

function py_range :: "nat \<Rightarrow> nat \<Rightarrow> nat \<Rightarrow> nat list" where
  "py_range i stop step = (if i < stop \<and> 0 < step then i # py_range (i + step) stop step else [])"
  by pat_completeness auto
termination
  by (relation "measure (\<lambda>(i, stop, step). stop - i)") auto

declare py_range.simps [simp del]

definition hex_digit :: "nat \<Rightarrow> char" where
  "hex_digit d = ''0123456789abcdef'' ! (d mod 16)"

text \<open>The hexadecimal digits of a number, most significant first (\<open>format(n, 'x')\<close>).\<close>

function hex_of_nat :: "nat \<Rightarrow> string" where
  "hex_of_nat n = (if n < 16 then [hex_digit n] else hex_of_nat (n div 16) @ [hex_digit (n mod 16)])"
  by pat_completeness auto
termination
  by (relation "measure id") auto

declare hex_of_nat.simps [simp del]

text \<open>\<open>s.rjust(w, '0')\<close> and \<open>s.ljust(w)\<close>: a string longer than the width is kept whole.\<close>

definition zero_pad :: "nat \<Rightarrow> string \<Rightarrow> string" where
  "zero_pad w s = replicate (w - length s) CHR ''0'' @ s"

definition ljust :: "nat \<Rightarrow> string \<Rightarrow> string" where
  "ljust w s = s @ replicate (w - length s) CHR '' ''"

text \<open>\<open>sep.join(parts)\<close>\<close>

fun join :: "string \<Rightarrow> string list \<Rightarrow> string" where
  "join sep [] = []"
| "join sep [p] = p"
| "join sep (p # q # ps) = p @ sep @ join sep (q # ps)"

text \<open>\<open>f"{b:02x}"\<close> for a byte and \<open>f"{i:04x}"\<close> for an offset.\<close>

definition fmt_02x :: "byte \<Rightarrow> string" where
  "fmt_02x b = zero_pad 2 (hex_of_nat (unat b))"

definition fmt_04x :: "nat \<Rightarrow> string" where
  "fmt_04x i = zero_pad 4 (hex_of_nat i)"

definition hex_part :: "byte list \<Rightarrow> string" where
  "hex_part chunk = join '' '' (map fmt_02x chunk)"

definition ascii_char :: "byte \<Rightarrow> char" where
  "ascii_char b = (if 32 \<le> unat b \<and> unat b < 127 then char_of (unat b) else CHR ''.'')"

definition ascii_part :: "byte list \<Rightarrow> string" where
  "ascii_part chunk = map ascii_char chunk"

text \<open>One line of the dump, for the offset \<open>i\<close>.\<close>

definition dump_line :: "byte list \<Rightarrow> nat \<Rightarrow> string" where
  "dump_line data i =
     (let chunk = take 16 (drop i data)
      in fmt_04x i @ '': '' @ ljust 48 (hex_part chunk) @ '' '' @ ascii_part chunk)"

definition dump_lines :: "byte list \<Rightarrow> string list" where
  "dump_lines data = map (dump_line data) (py_range 0 (length data) 16)"

definition to_hex_dump :: "byte list \<Rightarrow> string" where
  "to_hex_dump data = (if data = [] then [] else join [CHR 0x0A] (dump_lines data))"

section \<open>Firmware download of the RTL8723D loader (rtk_firmware_loader.py)\<close>

text \<open>
  \<open>struct.pack('<BH', a, n)\<close>: one byte, then sixteen bits with the low byte first.
  \<open>None\<close> is the \<open>struct.error\<close> for a value that does not fit.
\<close>

definition pack_BH :: "nat \<Rightarrow> nat \<Rightarrow> byte list option" where
  "pack_BH a n =
     (if a < 256 \<and> n < 65536 then Some [of_nat a, of_nat (n mod 256), of_nat (n div 256)]
      else None)"

text \<open>
  The loop of \<open>load_firmware\<close> that sends the firmware body, from \<open>offset\<close> on.  Each
  call of \<open>send_hci_command(opcode, params)\<close> is recorded as the pair of its arguments.
  Whether the device answers the \<open>k\<close>-th command of the loop is the parameter
  \<open>responds\<close>; a command that gets no answer (or an answer that does not parse) raises
  out of \<open>send_hci_command\<close> after the command was written, which ends \<open>load_firmware\<close>
  with the result \<open>False\<close>.  The result is whether the loop ran to its end, and the
  commands sent.
\<close>

function download_loop ::
  "(nat \<Rightarrow> bool) \<Rightarrow> byte list \<Rightarrow> nat \<Rightarrow> nat \<Rightarrow> bool \<times> (nat \<times> byte list) list" where
  "download_loop responds fw_data offset k =
     (let chunk_size = 252 in
      if offset < length fw_data then
        let chunk = take chunk_size (drop offset fw_data) in
        if chunk = [] then (True, [])
        else
          (case pack_BH 0x20 (length chunk) of
             None \<Rightarrow> (False, [])
           | Some prefix \<Rightarrow>
               let download_packet = prefix @ chunk in
               if responds k then
                 (case download_loop responds fw_data (offset + chunk_size) (k + 1) of
                    (finished, sent) \<Rightarrow> (finished, (0xFC20, download_packet) # sent))
               else (False, [(0xFC20, download_packet)]))
      else (True, []))"
  by pat_completeness auto
termination
  by (relation "measure (\<lambda>(responds, fw_data, offset, k). length fw_data - offset)") auto

declare download_loop.simps [simp del]

text \<open>The loop starts behind the 16 bytes of the firmware header.\<close>

definition download_firmware :: "(nat \<Rightarrow> bool) \<Rightarrow> byte list \<Rightarrow> bool \<times> (nat \<times> byte list) list" where
  "download_firmware responds fw_data = download_loop responds fw_data 16 0"

text \<open>A device that answers every command.\<close>

definition always_responds :: "nat \<Rightarrow> bool" where
  "always_responds k = True"

section \<open>MOS estimate of the SCO monitor (advanced_sco_monitor.py)\<close>

text \<open>
  The floating-point numbers of the source are idealised as real numbers, and
  \<open>np.log\<close> as the natural logarithm.  \<open>round(x, 2)\<close> rounds to the nearest multiple
  of one hundredth, a tie going to the even one.
\<close>

definition py_round2 :: "real \<Rightarrow> real" where
  "py_round2 x =
     (let y = x * 100; f = \<lfloor>y\<rfloor>; d = y - of_int f
      in of_int (if d < 1 / 2 then f else if 1 / 2 < d then f + 1
                 else if even f then f else f + 1) / 100)"

definition calculate_mos :: "real \<Rightarrow> real \<Rightarrow> real \<Rightarrow> real" where
  "calculate_mos loss latency jitter =
     (let r0 = 93.2;
          r1 = (if loss > 0 then r0 - 2.5 * ln (1 + 10 * loss) else r0);
          r2 = (if latency > 150 then r1 - (latency - 150) * 0.02 else r1);
          r_factor = r2 - jitter * 0.1;
          mos = (if r_factor < 0 then 1.0
                 else if r_factor > 100 then 4.5
                 else 1 + 0.035 * r_factor
                        + 0.000007 * r_factor * (r_factor - 60) * (100 - r_factor))
      in py_round2 mos)"

section \<open>Repeating byte patterns (hex_pattern_matcher.py)\<close>

record Pattern =
  pattern :: "byte list"
  hex_pattern :: string
  positions :: "nat list"
  length_pat :: nat
  count :: nat
  frequency :: real

text \<open>
  The two parameters of \<open>HexPatternMatcher\<close>; they are lengths, taken as natural
  numbers.
\<close>

record HexPatternMatcher =
  min_pattern_length :: nat
  max_pattern_length :: nat

definition default_matcher :: HexPatternMatcher where
  "default_matcher = \<lparr>min_pattern_length = 2, max_pattern_length = 32\<rparr>"

text \<open>\<open>bytes.hex()\<close>\<close>

definition hex_bytes :: "byte list \<Rightarrow> string" where
  "hex_bytes bs = concat (map fmt_02x bs)"

text \<open>
  \<open>data.find(pattern, start)\<close>: the least position from \<open>start\<close> on at which the
  pattern occurs, \<open>None\<close> for the result \<open>-1\<close>.  The empty pattern occurs at every
  position up to the length of the data.
\<close>

function py_find :: "byte list \<Rightarrow> byte list \<Rightarrow> nat \<Rightarrow> nat option" where
  "py_find data pat start =
     (if length data < start + length pat then None
      else if take (length pat) (drop start data) = pat then Some start
      else py_find data pat (start + 1))"
  by pat_completeness auto
termination
  by (relation "measure (\<lambda>(data, pat, start). Suc (length data) - start)") auto

declare py_find.simps [simp del]

text \<open>\<open>_find_pattern_positions\<close>: the loop, with \<open>start\<close> as its variable.\<close>

function positions_from :: "byte list \<Rightarrow> byte list \<Rightarrow> nat \<Rightarrow> nat list" where
  "positions_from data pat start =
     (case py_find data pat start of
        None \<Rightarrow> []
      | Some pos \<Rightarrow> pos # positions_from data pat (pos + 1))"
  by pat_completeness auto
termination
proof (relation "measure (\<lambda>(data, pat, start). Suc (length data) - start)")
  show "wf (measure (\<lambda>(data, pat, start). Suc (length data) - start))" by simp
next
  fix data pat :: "byte list" and start pos :: nat
  assume f: "py_find data pat start = Some pos"
  have "py_find data pat s = Some p \<Longrightarrow> s \<le> p \<and> p \<le> length data" for s p
  proof (induction data pat s rule: py_find.induct)
    case (1 data pat s)
    then show ?case
      by (fastforce simp: py_find.simps [of data pat s] split: if_splits)
  qed
  with f have "start \<le> pos \<and> pos \<le> length data" by blast
  then show "((data, pat, pos + 1), (data, pat, start))
      \<in> measure (\<lambda>(data, pat, start). Suc (length data) - start)"
    by (simp add: less_diff_conv) linarith
qed

declare positions_from.simps [simp del]

definition find_pattern_positions :: "byte list \<Rightarrow> byte list \<Rightarrow> nat list" where
  "find_pattern_positions data pat = positions_from data pat 0"

text \<open>
  \<open>_find_all_patterns\<close>.  The dictionary \<open>patterns\<close> is the list of its items in the
  order of insertion.  One run of the inner loop body, for a pattern length and a start:
\<close>

definition scan_window ::
  "byte list \<Rightarrow> nat \<Rightarrow> nat \<Rightarrow> (string \<times> Pattern) list \<Rightarrow> (string \<times> Pattern) list" where
  "scan_window data pattern_len start patterns =
     (let data_len = length data;
          pattern_bytes = take pattern_len (drop start data);
          pattern_key = hex_bytes pattern_bytes
      in if pattern_key \<in> set (map fst patterns) then patterns
         else
           let ps = find_pattern_positions data pattern_bytes in
           if length ps \<ge> 2 then
             patterns @
               [(pattern_key,
                 \<lparr>pattern = pattern_bytes, hex_pattern = pattern_key, positions = ps,
                   length_pat = pattern_len, count = length ps,
                   frequency = real (length ps) / real (data_len - pattern_len + 1)\<rparr>)]
           else patterns)"

definition scan_length ::
  "byte list \<Rightarrow> nat \<Rightarrow> (string \<times> Pattern) list \<Rightarrow> (string \<times> Pattern) list" where
  "scan_length data pattern_len patterns =
     fold (scan_window data pattern_len) [0..<length data - pattern_len + 1] patterns"

definition candidate_patterns :: "HexPatternMatcher \<Rightarrow> byte list \<Rightarrow> (string \<times> Pattern) list" where
  "candidate_patterns m data =
     fold (scan_length data)
       [min_pattern_length m..<min (max_pattern_length m + 1) (length data div 2 + 1)] []"

text \<open>
  \<open>sorted(xs, key=k, reverse=True)\<close> for keys that are pairs of numbers: the elements
  in descending order of their keys, elements of equal keys in their original order.
\<close>

definition key_less :: "nat \<times> nat \<Rightarrow> nat \<times> nat \<Rightarrow> bool" where
  "key_less a b \<longleftrightarrow> fst a < fst b \<or> (fst a = fst b \<and> snd a < snd b)"

fun insert_desc :: "('a \<Rightarrow> nat \<times> nat) \<Rightarrow> 'a \<Rightarrow> 'a list \<Rightarrow> 'a list" where
  "insert_desc k x [] = [x]"
| "insert_desc k x (y # ys) =
     (if key_less (k y) (k x) then x # y # ys else y # insert_desc k x ys)"

definition sorted_desc :: "('a \<Rightarrow> nat \<times> nat) \<Rightarrow> 'a list \<Rightarrow> 'a list" where
  "sorted_desc k xs = foldl (\<lambda>acc x. insert_desc k x acc) [] xs"

text \<open>The byte positions of one occurrence, and of all occurrences of a pattern.\<close>

definition pos_range :: "Pattern \<Rightarrow> nat \<Rightarrow> nat set" where
  "pos_range p pos = set [pos..<pos + length_pat p]"

definition cover :: "Pattern \<Rightarrow> nat set" where
  "cover p = \<Union> (set (map (pos_range p) (positions p)))"

text \<open>
  The loop of \<open>_filter_overlapping_patterns\<close> over the sorted patterns, with the set
  \<open>covered_positions\<close>; the result is the list \<open>filtered\<close>.
\<close>

fun filter_loop :: "Pattern list \<Rightarrow> nat set \<Rightarrow> Pattern list" where
  "filter_loop [] covered_positions = []"
| "filter_loop (p # rest) covered_positions =
     (let new_positions =
            \<Union> (set (map (pos_range p)
                        (filter (\<lambda>pos. \<not> pos_range p pos \<subseteq> covered_positions) (positions p))))
      in if new_positions \<noteq> {}
         then p # filter_loop rest (covered_positions \<union> new_positions)
         else filter_loop rest covered_positions)"

definition filter_overlapping_patterns :: "Pattern list \<Rightarrow> Pattern list" where
  "filter_overlapping_patterns patterns =
     filter_loop (sorted_desc (\<lambda>p. (length_pat p, count p)) patterns) {}"

definition find_all_patterns :: "HexPatternMatcher \<Rightarrow> byte list \<Rightarrow> Pattern list" where
  "find_all_patterns m data = filter_overlapping_patterns (map snd (candidate_patterns m data))"

text \<open>
  The field \<open>patterns\<close> of the result of \<open>analyze\<close>: nothing for data that is empty or
  shorter than the minimal length, else the patterns found, sorted by count and length.
\<close>

definition analyze_patterns :: "HexPatternMatcher \<Rightarrow> byte list \<Rightarrow> Pattern list" where
  "analyze_patterns m data =
     (if data = [] \<or> length data < min_pattern_length m then []
      else sorted_desc (\<lambda>p. (count p, length_pat p)) (find_all_patterns m data))"

text \<open>
  What \<open>_find_all_patterns\<close> stores with a candidate: all positions of its bytes
  in the data, at least two of them, their number and the length of the bytes.
\<close>

definition repeating :: "byte list \<Rightarrow> Pattern \<Rightarrow> bool" where
  "repeating data p \<longleftrightarrow>
     positions p = find_pattern_positions data (pattern p)
     \<and> 2 \<le> length (positions p) \<and> count p = length (positions p)
     \<and> length_pat p = length (pattern p)"

section \<open>Properties of the H5 framing\<close>

lemma h5_header_byte_range:
  assumes "0 \<le> (q::int)" "q < 8"
  shows "0 \<le> (push_bit 3 q OR (a AND 0x07)) \<and> (push_bit 3 q OR (a AND 0x07)) \<le> 255"
proof -
  have a0: "0 \<le> a AND 7" by simp
  have a7: "a AND 7 \<le> 7" by (rule AND_upper2') simp_all
  have p0: "0 \<le> push_bit 3 q" using assms by simp
  have p: "push_bit 3 q \<le> 56" using assms by (simp add: push_bit_eq_mult)
  have "(push_bit 3 q AND (a AND 7)) + (push_bit 3 q OR (a AND 7)) = push_bit 3 q + (a AND 7)"
    by (rule plus_and_or)
  moreover have "0 \<le> push_bit 3 q AND (a AND 7)" using p0 by simp
  ultimately have "push_bit 3 q OR (a AND 7) \<le> 63" using p a7 by linarith
  moreover have "0 \<le> push_bit 3 q OR (a AND 7)" using p0 a0 by simp
  ultimately show ?thesis by simp
qed

lemma h5_type_roundtrip: "H5PacketType_of (uint (word_of_int (pkt_type_value t AND 0x0F) AND (0x0F :: byte))) = Some t"
  by (cases t) (simp_all add: H5PacketType_of_def)

lemma frame_slices:
  fixes p :: "byte list" and a b c d k e :: byte
  defines "f \<equiv> a # b # c # d # p @ [k, e]"
  shows "length f = length p + 6" "f ! 0 = a" "f ! (length f - 1) = e" "f ! 1 = b" "f ! 2 = c"
    "f ! (length f - 2) = k"
    "drop 4 (take (length f - 2) f) = p"
    "drop 1 (take (length f - 2) f) = b # c # d # p"
  unfolding f_def by (simp_all add: nth_append)

lemma frame_upd:
  fixes p :: "byte list"
  shows "(a # b # c # d # p @ [k, e]) [length p + 4 := k'] = a # b # c # d # p @ [k', e]"
proof -
  have n: "length p + 4 = length (a # b # c # d # p)" by simp
  have l: "a # b # c # d # p @ [k, e] = (a # b # c # d # p) @ k # [e]" by simp
  show ?thesis unfolding n l by (simp only: list_update_length) simp
qed

text \<open>
  C1.  For every packet type of the enum and every payload, a frame built by
  \<open>create_packet\<close> (in a state whose sequence number is in \<open>0..7\<close>, which
  \<open>create_packet\<close> preserves) is parsed back by \<open>parse_packet\<close> to exactly the type and
  the payload; and the same frame with its checksum byte (the last but one) replaced by
  any other value is rejected with the checksum-mismatch error.
\<close>

theorem h5_roundtrip:
  assumes "h5_inv s"
  shows "\<exists>frame s'. create_packet s t p = (Inr frame, s') \<and> h5_inv s'
           \<and> 6 \<le> length frame
           \<and> fst (parse_packet r frame) = Inr (t, p)
           \<and> (\<forall>c. c \<noteq> frame ! (length frame - 2) \<longrightarrow>
                  fst (parse_packet r (frame[length frame - 2 := c])) = Inl ChecksumMismatch)"
proof -
  define h1 where "h1 = push_bit 3 (seq_num s) OR (ack_num s AND 0x07)"
  define b1 :: byte where "b1 = word_of_int h1"
  define b2 :: byte where "b2 = word_of_int (pkt_type_value t AND 0x0F)"
  define b3 :: byte where "b3 = word_of_int (int (length p) AND 0xFF)"
  define k where "k = xor_all (b1 # b2 # b3 # p)"
  define frame where "frame = 0xC0 # b1 # b2 # b3 # p @ [k, 0xC0]"
  define s' where "s' = s\<lparr>seq_num := (seq_num s + 1) mod 8\<rparr>"
  have rng: "\<not> (h1 < 0 \<or> 255 < h1)"
    using assms h5_header_byte_range [of "seq_num s" "ack_num s"] by (simp add: h5_inv_def h1_def)
  have cr: "create_packet s t p = (Inr frame, s')"
    using rng by (simp add: create_packet_def Let_def h1_def [symmetric] frame_def s'_def k_def b1_def b2_def b3_def)
  have inv: "h5_inv s'" by (simp add: h5_inv_def s'_def)
  have len: "length frame = length p + 6" by (simp add: frame_def)
  have ty: "H5PacketType_of (uint (b2 AND 0x0F)) = Some t"
    unfolding b2_def by (rule h5_type_roundtrip)
  note fs = frame_slices [of "0xC0" b1 b2 b3 p k "0xC0", folded frame_def]
  have ok: "fst (parse_packet r frame) = Inr (t, p)"
    unfolding parse_packet_def Let_def
    by (simp only: fs(2-)) (simp add: fs(1) ty k_def)
  have bad: "fst (parse_packet r (frame[length frame - 2 := c])) = Inl ChecksumMismatch"
    if "c \<noteq> frame ! (length frame - 2)" for c
  proof -
    define g where "g = 0xC0 # b1 # b2 # b3 # p @ [c, 0xC0]"
    have kc: "c \<noteq> k" using that by (simp only: fs(6)) simp
    have upd: "frame[length frame - 2 := c] = g"
      using frame_upd [of "0xC0" b1 b2 b3 p k "0xC0" c] by (simp add: frame_def g_def)
    note gs = frame_slices [of "0xC0" b1 b2 b3 p c "0xC0", folded g_def]
    show ?thesis
      unfolding upd parse_packet_def Let_def
      using kc by (simp only: gs(2-)) (simp add: gs(1) k_def)
  qed
  show ?thesis using cr inv len ok bad by auto
qed

theorem h5_roundtrip_witness:
  "h5_inv h5_init
   \<and> fst (create_packet h5_init VENDOR [1, 2, 0xC0]) = Inr [0xC0, 0, 0x0E, 3, 1, 2, 0xC0, 0xCE, 0xC0]
   \<and> fst (parse_packet h5_init [0xC0, 0, 0x0E, 3, 1, 2, 0xC0, 0xCE, 0xC0]) = Inr (VENDOR, [1, 2, 0xC0])
   \<and> fst (parse_packet h5_init [0xC0, 0, 0x0E, 3, 1, 2, 0xC0, 0x00, 0xC0]) = Inl ChecksumMismatch"
proof -
  have i: "h5_inv h5_init" by (simp add: h5_inv_def h5_init_def)
  from h5_roundtrip [OF i, of VENDOR "[1, 2, 0xC0]" h5_init]
  obtain frame s' where cr: "create_packet h5_init VENDOR [1, 2, 0xC0] = (Inr frame, s')"
    and ok: "fst (parse_packet h5_init frame) = Inr (VENDOR, [1, 2, 0xC0])"
    and bad: "\<And>c. c \<noteq> frame ! (length frame - 2) \<Longrightarrow>
                fst (parse_packet h5_init (frame[length frame - 2 := c])) = Inl ChecksumMismatch"
    by blast
  have fr: "frame = [0xC0, 0, 0x0E, 3, 1, 2, 0xC0, 0xCE, 0xC0]"
    using cr by (simp add: create_packet_def h5_init_def xor_all_def Let_def)
  have "frame[length frame - 2 := 0] = [0xC0, 0, 0x0E, 3, 1, 2, 0xC0, 0x00, 0xC0]"
    by (simp add: fr)
  with bad [of 0] have "fst (parse_packet h5_init [0xC0, 0, 0x0E, 3, 1, 2, 0xC0, 0x00, 0xC0]) = Inl ChecksumMismatch"
    by (simp add: fr)
  with i cr ok show ?thesis by (simp add: fr)
qed

section \<open>Properties of the auto-connect retry logic\<close>

lemma calculate_retry_delay_le: "calculate_retry_delay c \<le> max_retry_delay (config c)"
  by (simp add: calculate_retry_delay_def Let_def)

lemma update_metrics_failure:
  assumes "update_metrics now False ct c = (r, c')"
  shows "consecutive_failures (metrics c') = consecutive_failures (metrics c) + 1"
    "total_attempts (metrics c') = total_attempts (metrics c) + 1"
    "config c' = config c" "retry_count c' = retry_count c" "is_enabled c' = is_enabled c"
    "pause_until c' = pause_until c"
    "r = None \<longleftrightarrow> total_attempts (metrics c) \<noteq> - 1"
  using assms by (auto simp: update_metrics_def Let_def split: if_splits)

lemma update_metrics_success:
  assumes "update_metrics now True ct c = (r, c')"
  shows "consecutive_failures (metrics c') = 0"
  using assms by (auto simp: update_metrics_def Let_def split: if_splits option.splits)

lemma attempt_except_step:
  assumes "attempt_except now evs c = (r, evs', c')"
  shows "consecutive_failures (metrics c') = consecutive_failures (metrics c) + 1"
    "total_attempts (metrics c') = total_attempts (metrics c) + 1"
    "config c' = config c" "retry_count c' = retry_count c + 1" "is_enabled c' = is_enabled c"
    "pause_until c' = pause_until c"
proof -
  obtain r2 c2 where u: "update_metrics now False None (c\<lparr>state_conn := FAILED_conn, retry_count := retry_count c + 1\<rparr>) = (r2, c2)"
    by (cases "update_metrics now False None (c\<lparr>state_conn := FAILED_conn, retry_count := retry_count c + 1\<rparr>)")
  have c': "c' = c2" using assms u by (auto simp: attempt_except_def Let_def split: option.splits)
  note f = update_metrics_failure [OF u]
  show "consecutive_failures (metrics c') = consecutive_failures (metrics c) + 1"
    "total_attempts (metrics c') = total_attempts (metrics c) + 1"
    "config c' = config c" "retry_count c' = retry_count c + 1" "is_enabled c' = is_enabled c"
    "pause_until c' = pause_until c"
    using f by (simp_all add: c')
qed

lemma attempt_failure_general:
  fixes c :: ManagedConnection and ts te now :: real
  assumes "outcome \<noteq> Returned True"
  defines "c' \<equiv> conn_after (attempt_connection ts te now outcome c)"
  shows "consecutive_failures (metrics c) + 1 \<le> consecutive_failures (metrics c')"
    "config c' = config c" "is_enabled c' = is_enabled c" "pause_until c' = pause_until c"
proof -
  define c0 where "c0 = c\<lparr>state_conn := CONNECTING_conn, connection_start_time := Some ts\<rparr>"
  define c1 where "c1 = c0\<lparr>state_conn := FAILED_conn, retry_count := retry_count c0 + 1\<rparr>"
  obtain r2 c2 where u: "update_metrics now False None c1 = (r2, c2)"
    by (cases "update_metrics now False None c1")
  note f = update_metrics_failure [OF u]
  obtain r3 e3 c3 where x: "attempt_except now [connection_attempt (retry_count c0)] c2 = (r3, e3, c3)"
    by (cases "attempt_except now [connection_attempt (retry_count c0)] c2")
  note g = attempt_except_step [OF x]
  obtain r4 e4 c4 where y: "attempt_except now [connection_attempt (retry_count c0)] c0 = (r4, e4, c4)"
    by (cases "attempt_except now [connection_attempt (retry_count c0)] c0")
  note h = attempt_except_step [OF y]
  have "c' = c2 \<or> c' = c3 \<or> c' = c4"
  proof (cases outcome)
    case (Returned b)
    with assms(1) have "\<not> b" by simp
    then show ?thesis
      unfolding c'_def conn_after_def attempt_connection_def Let_def Returned
      using u x by (cases r2) (simp_all add: c0_def [symmetric] c1_def [symmetric])
  next
    case TimedOut
    then show ?thesis
      unfolding c'_def conn_after_def attempt_connection_def Let_def TimedOut
      using u by (cases r2) (simp_all add: c0_def [symmetric] c1_def [symmetric])
  next
    case Raised
    then show ?thesis
      unfolding c'_def conn_after_def attempt_connection_def Let_def Raised
      using y by (simp add: c0_def [symmetric])
  qed
  moreover have "consecutive_failures (metrics c1) = consecutive_failures (metrics c)"
    "config c1 = config c" "is_enabled c1 = is_enabled c" "pause_until c1 = pause_until c"
    "consecutive_failures (metrics c0) = consecutive_failures (metrics c)"
    "config c0 = config c" "is_enabled c0 = is_enabled c" "pause_until c0 = pause_until c"
    by (simp_all add: c0_def c1_def)
  ultimately show "consecutive_failures (metrics c) + 1 \<le> consecutive_failures (metrics c')"
    "config c' = config c" "is_enabled c' = is_enabled c" "pause_until c' = pause_until c"
    using f g h by auto
qed

lemma attempt_failure_exact:
  fixes c :: ManagedConnection and ts te now :: real
  assumes "outcome \<noteq> Returned True" "total_attempts (metrics c) \<noteq> - 1"
  defines "c' \<equiv> conn_after (attempt_connection ts te now outcome c)"
  shows "consecutive_failures (metrics c') = consecutive_failures (metrics c) + 1"
    "total_attempts (metrics c') = total_attempts (metrics c) + 1"
    "retry_count c' = retry_count c + 1"
proof -
  define c0 where "c0 = c\<lparr>state_conn := CONNECTING_conn, connection_start_time := Some ts\<rparr>"
  define c1 where "c1 = c0\<lparr>state_conn := FAILED_conn, retry_count := retry_count c0 + 1\<rparr>"
  obtain r2 c2 where u: "update_metrics now False None c1 = (r2, c2)"
    by (cases "update_metrics now False None c1")
  note f = update_metrics_failure [OF u]
  have r2: "r2 = None" using f(7) assms(2) by (simp add: c1_def c0_def)
  obtain r4 e4 c4 where y: "attempt_except now [connection_attempt (retry_count c0)] c0 = (r4, e4, c4)"
    by (cases "attempt_except now [connection_attempt (retry_count c0)] c0")
  note h = attempt_except_step [OF y]
  have "c' = c2 \<or> c' = c4"
  proof (cases outcome)
    case (Returned b)
    with assms(1) have "\<not> b" by simp
    then show ?thesis
      unfolding c'_def conn_after_def attempt_connection_def Let_def Returned
      using u r2 by (simp add: c0_def [symmetric] c1_def [symmetric])
  next
    case TimedOut
    then show ?thesis
      unfolding c'_def conn_after_def attempt_connection_def Let_def TimedOut
      using u r2 by (simp add: c0_def [symmetric] c1_def [symmetric])
  next
    case Raised
    then show ?thesis
      unfolding c'_def conn_after_def attempt_connection_def Let_def Raised
      using y by (simp add: c0_def [symmetric])
  qed
  moreover have "consecutive_failures (metrics c1) = consecutive_failures (metrics c)"
    "total_attempts (metrics c1) = total_attempts (metrics c)" "retry_count c1 = retry_count c + 1"
    "consecutive_failures (metrics c0) = consecutive_failures (metrics c)"
    "total_attempts (metrics c0) = total_attempts (metrics c)" "retry_count c0 = retry_count c"
    by (simp_all add: c0_def c1_def)
  ultimately show "consecutive_failures (metrics c') = consecutive_failures (metrics c) + 1"
    "total_attempts (metrics c') = total_attempts (metrics c) + 1"
    "retry_count c' = retry_count c + 1"
    using f h by auto
qed

lemma run_attempts_failures:
  assumes "\<forall>a \<in> set attempts. snd (snd (snd a)) \<noteq> Returned True"
  shows "consecutive_failures (metrics c) \<le> consecutive_failures (metrics (run_attempts attempts c))
         \<and> config (run_attempts attempts c) = config c"
  using assms
proof (induction attempts arbitrary: c)
  case Nil
  then show ?case by simp
next
  case (Cons a rest)
  obtain t0 t1 now outcome where a: "a = (t0, t1, now, outcome)" by (cases a) auto
  have oc: "outcome \<noteq> Returned True" using Cons.prems a by simp
  define c' where "c' = conn_after (attempt_connection t0 t1 now outcome c)"
  note st = attempt_failure_general [OF oc, where c = c and ts = t0 and te = t1 and now = now, folded c'_def]
  have "consecutive_failures (metrics c') \<le> consecutive_failures (metrics (run_attempts rest c'))
         \<and> config (run_attempts rest c') = config c'"
    using Cons.IH [of c'] Cons.prems by simp
  then show ?case using st by (simp add: a c'_def [symmetric])
qed

text \<open>
  C7.  For every managed connection (any retry count, any of the three strategies)
  \<open>calculate_retry_delay\<close> returns at most \<open>max_retry_delay\<close>; once the consecutive
  failures have reached \<open>max_consecutive_failures\<close>, \<open>should_retry\<close> is false and stays
  false after any further attempts that do not succeed; and \<open>update_metrics\<close> with
  success sets the counter back to zero.
\<close>

theorem retry_delay_capped_and_failure_gate:
  "calculate_retry_delay c \<le> max_retry_delay (config c)
   \<and> (max_consecutive_failures (config c) \<le> consecutive_failures (metrics c)
        \<and> (\<forall>a \<in> set attempts. snd (snd (snd a)) \<noteq> Returned True)
        \<longrightarrow> \<not> should_retry now (run_attempts attempts c))
   \<and> consecutive_failures (metrics (snd (update_metrics now' True ct c))) = 0"
proof -
  have "\<not> should_retry now (run_attempts attempts c)"
    if "max_consecutive_failures (config c) \<le> consecutive_failures (metrics c)"
      "\<forall>a \<in> set attempts. snd (snd (snd a)) \<noteq> Returned True"
    using run_attempts_failures [OF that(2), of c] that(1)
    by (simp add: should_retry_def)
  moreover have "consecutive_failures (metrics (snd (update_metrics now' True ct c))) = 0"
    using update_metrics_success [of now' ct c] by (cases "update_metrics now' True ct c") simp
  ultimately show ?thesis using calculate_retry_delay_le by blast
qed

theorem retry_delay_capped_and_failure_gate_witness:
  "calculate_retry_delay
      (run_attempts [(0, 1, 1, Returned False), (2, 3, 3, TimedOut), (4, 5, 5, Raised)]
         (new_connection ''AA:BB:CC:DD:EE:FF'' default_config)) \<le> 60
   \<and> \<not> should_retry 8
        (run_attempts [(6, 7, 7, Returned False)]
          (run_attempts [(0, 1, 1, Returned False), (2, 3, 3, TimedOut), (4, 5, 5, Raised)]
            (new_connection ''AA:BB:CC:DD:EE:FF'' default_config)))"
proof -
  define c where "c = run_attempts [(0, 1, 1, Returned False), (2, 3, 3, TimedOut), (4, 5, 5, Raised)]
         (new_connection ''AA:BB:CC:DD:EE:FF'' default_config)"
  have cf: "consecutive_failures (metrics c) = 3" and cfg: "config c = default_config"
    by (simp_all add: c_def conn_after_def attempt_connection_def attempt_except_def
        update_metrics_def new_connection_def new_metrics_def default_config_def Let_def)
  have h: "max_consecutive_failures (config c) \<le> consecutive_failures (metrics c)
        \<and> (\<forall>a \<in> set [(6, 7, 7, Returned False)]. snd (snd (snd a)) \<noteq> Returned True)"
    by (simp add: cf cfg default_config_def)
  from retry_delay_capped_and_failure_gate [of c "[(6, 7, 7, Returned False)]" 8] h
  have "calculate_retry_delay c \<le> max_retry_delay (config c)"
    and "\<not> should_retry 8 (run_attempts [(6, 7, 7, Returned False)] c)"
    by blast+
  then have "calculate_retry_delay c \<le> 60
      \<and> \<not> should_retry 8 (run_attempts [(6, 7, 7, Returned False)] c)"
    by (simp add: cfg default_config_def)
  then show ?thesis unfolding c_def .
qed

text \<open>
  C3.  In the retry scenario the retry count is incremented before the delay is computed,
  so the delay computed after the first failed attempt is 2 s, not 1 s.
\<close>

theorem retry_scenario_first_delay_counterexample:
  "calculate_retry_delay
     (conn_after (attempt_connection 0 1 1 (Returned False)
        (new_connection ''AA:BB:CC:DD:EE:FF'' scenario_config))) = 2
   \<and> calculate_retry_delay
     (conn_after (attempt_connection 0 1 1 (Returned False)
        (new_connection ''AA:BB:CC:DD:EE:FF'' scenario_config))) \<noteq> 1"
  by (simp add: conn_after_def attempt_connection_def update_metrics_def new_connection_def
      new_metrics_def scenario_config_def default_config_def calculate_retry_delay_def Let_def)

text \<open>
  C3, as the code has it.  With \<open>max_retries = 3\<close>, the exponential strategy, an
  initial delay of 1.0, a maximal delay of 60.0 and the default
  \<open>max_consecutive_failures\<close>: the delay computed after the first failed attempt is 2 s,
  after the second 4 s, after the third 8 s; a second and a third attempt are allowed,
  and before a fourth \<open>should_retry\<close> is false.
\<close>

theorem retry_scenario_delays:
  assumes "o1 \<noteq> Returned True" "o2 \<noteq> Returned True" "o3 \<noteq> Returned True"
  shows "let c1 = conn_after (attempt_connection a1 b1 n1 o1 (new_connection addr scenario_config));
             c2 = conn_after (attempt_connection a2 b2 n2 o2 c1);
             c3 = conn_after (attempt_connection a3 b3 n3 o3 c2)
         in calculate_retry_delay c1 = 2 \<and> should_retry now1 c1
          \<and> calculate_retry_delay c2 = 4 \<and> should_retry now2 c2
          \<and> calculate_retry_delay c3 = 8 \<and> \<not> should_retry now3 c3"
proof -
  define c0 where "c0 = new_connection addr scenario_config"
  define c1 where "c1 = conn_after (attempt_connection a1 b1 n1 o1 c0)"
  define c2 where "c2 = conn_after (attempt_connection a2 b2 n2 o2 c1)"
  define c3 where "c3 = conn_after (attempt_connection a3 b3 n3 o3 c2)"
  have s0: "retry_count c0 = 0" "consecutive_failures (metrics c0) = 0"
    "total_attempts (metrics c0) = 0" "config c0 = scenario_config" "is_enabled c0"
    "pause_until c0 = None"
    by (simp_all add: c0_def new_connection_def new_metrics_def)
  have s1: "retry_count c1 = 1" "consecutive_failures (metrics c1) = 1"
    "total_attempts (metrics c1) = 1" "config c1 = scenario_config" "is_enabled c1"
    "pause_until c1 = None"
    using attempt_failure_exact [OF assms(1), where c = c0 and ts = a1 and te = b1 and now = n1]
      attempt_failure_general [OF assms(1), where c = c0 and ts = a1 and te = b1 and now = n1] s0
    by (simp_all add: c1_def)
  have s2: "retry_count c2 = 2" "consecutive_failures (metrics c2) = 2"
    "total_attempts (metrics c2) = 2" "config c2 = scenario_config" "is_enabled c2"
    "pause_until c2 = None"
    using attempt_failure_exact [OF assms(2), where c = c1 and ts = a2 and te = b2 and now = n2]
      attempt_failure_general [OF assms(2), where c = c1 and ts = a2 and te = b2 and now = n2] s1
    by (simp_all add: c2_def)
  have s3: "retry_count c3 = 3" "consecutive_failures (metrics c3) = 3"
    "total_attempts (metrics c3) = 3" "config c3 = scenario_config" "is_enabled c3"
    "pause_until c3 = None"
    using attempt_failure_exact [OF assms(3), where c = c2 and ts = a3 and te = b3 and now = n3]
      attempt_failure_general [OF assms(3), where c = c2 and ts = a3 and te = b3 and now = n3] s2
    by (simp_all add: c3_def)
  have "calculate_retry_delay c1 = 2" "calculate_retry_delay c2 = 4" "calculate_retry_delay c3 = 8"
    by (simp_all add: calculate_retry_delay_def s1 s2 s3 scenario_config_def default_config_def)
  moreover have "should_retry now1 c1" "should_retry now2 c2" "\<not> should_retry now3 c3"
    by (simp_all add: should_retry_def s1 s2 s3 scenario_config_def default_config_def)
  ultimately show ?thesis
    by (simp add: Let_def c0_def [symmetric] c1_def [symmetric] c2_def [symmetric] c3_def [symmetric])
qed

theorem retry_scenario_delays_witness:
  "let c1 = conn_after (attempt_connection 0 1 1 (Returned False)
              (new_connection ''AA:BB:CC:DD:EE:FF'' scenario_config));
       c2 = conn_after (attempt_connection 3 4 4 TimedOut c1);
       c3 = conn_after (attempt_connection 8 9 9 Raised c2)
   in calculate_retry_delay c1 = 2 \<and> should_retry 1 c1
    \<and> calculate_retry_delay c2 = 4 \<and> should_retry 4 c2
    \<and> calculate_retry_delay c3 = 8 \<and> \<not> should_retry 9 c3"
  by (rule retry_scenario_delays) simp_all

section \<open>Properties of the HFP protocol handler\<close>

lemma py_int_hex: "py_int ''0x80'' = None"
  by (simp add: py_int_def strip_def is_space_def is_digit_def)

lemma py_int_128: "py_int ''128'' = Some 128" "py_int ''512'' = Some 512"
  by (simp_all add: py_int_def strip_def is_space_def is_digit_def digit_value_def)

lemma find_cind: "findall_indicators ''+CIND: (\"call\",(0,1)),(\"callsetup\",(0-3))'' = [(''call'', ''0,1''), (''callsetup'', ''0-3'')]"
  by (simp add: match_indicator_def is_word_char_def is_range_char_def is_digit_def Let_def)

lemmas hfp_eval_defs =
  process_at_command_def handle_outgoing_command_def handle_incoming_command_def
  handle_indicator_event_def parse_indicators_def
  startswith_def split_def py_index_def py_int_def strip_def is_space_def is_digit_def
  digit_value_def match_indicator_def is_word_char_def is_range_char_def Let_def

lemma decimal_trace_result:
  "process_trace (decimal_trace t0 t1 t2 t3 t4 t5) (new_handler r) =
     (None,
      (new_handler r)\<lparr>
        state := SLC_CONNECTING,
        features := no_features\<lparr>codec_negotiation := True, ag_codec_negotiation := True\<rparr>,
        at_command_flow :=
          [\<lparr>timestamp = t0, command = ''AT+BRSF=128'', response = [], direction = ''TX'',
             state_cmd = DISCONNECTED\<rparr>,
           \<lparr>timestamp = t1, command = ''+BRSF:512'', response = [], direction = ''RX'',
             state_cmd = SLC_CONNECTING\<rparr>,
           \<lparr>timestamp = t2, command = ''AT+BAC=1,2'', response = [], direction = ''TX'',
             state_cmd = SLC_CONNECTING\<rparr>,
           \<lparr>timestamp = t3, command = ''AT+CIND=?'', response = [], direction = ''TX'',
             state_cmd = SLC_CONNECTING\<rparr>,
           \<lparr>timestamp = t4, command = ''+CIND: (\"call\",(0,1)),(\"callsetup\",(0-3))'',
             response = [], direction = ''RX'', state_cmd = SLC_CONNECTING\<rparr>,
           \<lparr>timestamp = t5, command = ''AT+CMER=3,0,0,1'', response = [], direction = ''TX'',
             state_cmd = SLC_CONNECTING\<rparr>],
        indicators :=
          [(''call'', \<lparr>ind_range = ''0,1'', ind_value = 0\<rparr>),
           (''callsetup'', \<lparr>ind_range = ''0-3'', ind_value = 0\<rparr>)]\<rparr>)"
  by (simp add: decimal_trace_def new_handler_def no_features_def parse_hf_features_def
      parse_ag_features_def hfp_eval_defs)

text \<open>
  C4.  On the trace as written the first command already fails: \<open>int("0x80")\<close> raises
  ValueError, and the handler stays in state \<open>DISCONNECTED\<close>, not \<open>CONNECTED\<close>.
\<close>

theorem hfp_scenario_counterexample:
  "fst (process_trace scenario_trace (new_handler HF)) = Some ValueError
   \<and> state (snd (process_trace scenario_trace (new_handler HF))) = DISCONNECTED
   \<and> state (snd (process_trace scenario_trace (new_handler HF))) \<noteq> CONNECTED"
  by (simp add: scenario_trace_def new_handler_def hfp_eval_defs)

text \<open>
  With decimal masks the six commands are accepted, but \<open>AT+CMER=3,0,0,1\<close> is not the
  bare \<open>AT+CMER\<close> the handler compares with, so the state stays \<open>SLC_CONNECTING\<close> and
  two issues are reported.
\<close>

lemma decimal_trace_analysis:
  "state (snd (process_trace (decimal_trace 0 0.1 0.2 0.3 0.4 0.5) (new_handler HF))) = SLC_CONNECTING
   \<and> likely_issues (analyze_failure (snd (process_trace (decimal_trace 0 0.1 0.2 0.3 0.4 0.5) (new_handler HF))))
       = [Issue ''Service Level Connection failed'', Issue ''Codec negotiation incomplete'']"
  unfolding decimal_trace_result
  by (simp add: analyze_failure_def new_handler_def no_features_def startswith_def Let_def)

text \<open>
  C4, as the code has it.  With the masks in decimal (\<open>AT+BRSF=128\<close>, \<open>+BRSF:512\<close>),
  the six commands of the trace are processed without an exception and leave the selected
  codec at CVSD; processing \<open>AT+BCC\<close> (TX) after them, with no \<open>+BCS\<close> reply, puts the
  state at \<open>AUDIO_CONNECTING\<close>, and \<open>analyze_failure\<close> then reports "SCO audio connection
  failed" but not "Codec negotiation incomplete", which it reports only in state
  \<open>SLC_CONNECTING\<close>.
\<close>

theorem hfp_scenario_amended:
  "fst (process_trace (decimal_trace t0 t1 t2 t3 t4 t5) (new_handler r)) = None
   \<and> selected_codec (snd (process_trace (decimal_trace t0 t1 t2 t3 t4 t5) (new_handler r))) = ''CVSD''
   \<and> fst (process_trace (decimal_trace t0 t1 t2 t3 t4 t5 @ [(t6, ''AT+BCC'', [], ''TX'')]) (new_handler r)) = None
   \<and> state (snd (process_trace (decimal_trace t0 t1 t2 t3 t4 t5 @ [(t6, ''AT+BCC'', [], ''TX'')]) (new_handler r)))
       = AUDIO_CONNECTING
   \<and> Issue ''SCO audio connection failed''
       \<in> set (likely_issues (analyze_failure
             (snd (process_trace (decimal_trace t0 t1 t2 t3 t4 t5 @ [(t6, ''AT+BCC'', [], ''TX'')]) (new_handler r)))))
   \<and> Issue ''Codec negotiation incomplete''
       \<notin> set (likely_issues (analyze_failure
             (snd (process_trace (decimal_trace t0 t1 t2 t3 t4 t5 @ [(t6, ''AT+BCC'', [], ''TX'')]) (new_handler r)))))"
proof -
  have app: "process_trace (tr @ [(t6, ''AT+BCC'', [], ''TX'')]) h =
      (case process_trace tr h of
         (Some e, h') \<Rightarrow> (Some e, h')
       | (None, h') \<Rightarrow> process_at_command t6 ''AT+BCC'' [] ''TX'' h')" for tr h
    by (induction tr h rule: process_trace.induct) (auto split: prod.splits option.splits)
  show ?thesis
    unfolding app decimal_trace_result
    by (simp add: analyze_failure_def new_handler_def process_at_command_def
        handle_outgoing_command_def startswith_def Let_def)
qed

subsection \<open>The command flow\<close>

lemma handle_indicator_event_flow:
  "at_command_flow (snd (handle_indicator_event cmd h)) = at_command_flow h"
  by (simp add: handle_indicator_event_def Let_def split: option.splits sum.splits)

lemma handle_outgoing_command_flow:
  "at_command_flow (snd (handle_outgoing_command cmd h)) = at_command_flow h"
  by (simp add: handle_outgoing_command_def split: option.splits sum.splits)

lemma handle_incoming_command_flow:
  "at_command_flow (snd (handle_incoming_command cmd resp h)) = at_command_flow h"
  by (simp add: handle_incoming_command_def handle_indicator_event_flow parse_indicators_def
      split: option.splits sum.splits)

text \<open>
  C9, as the code has it.  Every call of \<open>process_at_command\<close> appends one entry at the
  end of the command flow and removes none, whether or not the call raises: the flow is
  an unbounded list, not a ring.
\<close>

theorem command_flow_appends:
  "at_command_flow (snd (process_at_command now cmd resp dir h)) =
     at_command_flow h @
       [\<lparr>timestamp = now, command = strip cmd, response = strip resp, direction = dir,
          state_cmd = state h\<rparr>]"
  by (simp add: process_at_command_def Let_def handle_outgoing_command_flow
      handle_incoming_command_flow)

lemma query_trace_flow:
  "fst (process_trace (replicate n (t, ''AT+CIND=?'', [], ''TX'')) h) = None \<and>
   length (at_command_flow (snd (process_trace (replicate n (t, ''AT+CIND=?'', [], ''TX'')) h)))
     = length (at_command_flow h) + n"
proof (induction n arbitrary: h)
  case 0
  then show ?case by simp
next
  case (Suc n)
  have step: "process_at_command t ''AT+CIND=?'' [] ''TX'' h =
      (None, h\<lparr>at_command_flow := at_command_flow h @
         [\<lparr>timestamp = t, command = ''AT+CIND=?'', response = [], direction = ''TX'',
            state_cmd = state h\<rparr>]\<rparr>)"
    by (simp add: process_at_command_def handle_outgoing_command_def startswith_def strip_def
        is_space_def Let_def)
  show ?case using Suc.IH by (simp add: step)
qed

text \<open>
  C9.  After 1001 calls on a new handler the command flow holds 1001 entries, more than
  1000.
\<close>

theorem command_flow_unbounded_counterexample:
  "length (at_command_flow
     (snd (process_trace (replicate 1001 (0, ''AT+CIND=?'', [], ''TX'')) (new_handler HF)))) = 1001
   \<and> \<not> length (at_command_flow
     (snd (process_trace (replicate 1001 (0, ''AT+CIND=?'', [], ''TX'')) (new_handler HF)))) \<le> 1000"
  using query_trace_flow [of 1001 0 "new_handler HF"] by (simp add: new_handler_def)

subsection \<open>Indicator events\<close>

lemma dict_set_value_keys: "map fst (dict_set_value d k v) = map fst d"
  by (induction d) auto

lemma ciev_index_cases:
  assumes "split cmd CHR '':'' = p0 # p1 # ps" "split p1 CHR '','' = [a, b]"
    and "py_int a = Some i" "py_int b = Some v"
    and "indicators h \<noteq> []"
  defines "n \<equiv> int (length (indicators h))"
  shows "1 \<le> i \<and> i \<le> n \<Longrightarrow>
           fst (handle_indicator_event cmd h) = None \<and>
           indicators (snd (handle_indicator_event cmd h)) =
             dict_set_value (indicators h) (fst (indicators h ! nat (i - 1))) v"
    and "n < i \<Longrightarrow> handle_indicator_event cmd h = (None, h)"
    and "i = 0 \<Longrightarrow>
           fst (handle_indicator_event cmd h) = None \<and>
           indicators (snd (handle_indicator_event cmd h)) =
             dict_set_value (indicators h) (fst (last (indicators h))) v"
    and "i \<le> - n \<Longrightarrow> handle_indicator_event cmd h = (Some IndexError, h)"
proof -
  have n0: "0 < n" using assms(5) by (simp add: n_def)
  note pre = handle_indicator_event_def Let_def assms(1-4) py_index_def
  show "fst (handle_indicator_event cmd h) = None \<and>
           indicators (snd (handle_indicator_event cmd h)) =
             dict_set_value (indicators h) (fst (indicators h ! nat (i - 1))) v"
    if "1 \<le> i \<and> i \<le> n"
  proof -
    have "nat (i - 1) < length (indicators h)" using that unfolding n_def by linarith
    then have "map fst (indicators h) ! nat (i - 1) = fst (indicators h ! nat (i - 1))"
      by (rule nth_map)
    then show ?thesis using that by (auto simp: pre n_def)
  qed
  show "handle_indicator_event cmd h = (None, h)" if "n < i"
    using that by (simp add: pre n_def)
  show "fst (handle_indicator_event cmd h) = None \<and>
           indicators (snd (handle_indicator_event cmd h)) =
             dict_set_value (indicators h) (fst (last (indicators h))) v"
    if "i = 0"
  proof -
    have "nat (n - 1) = length (indicators h) - 1" by (simp add: n_def)
    then have "map fst (indicators h) ! nat (n - 1) = fst (last (indicators h))"
      using assms(5) by (simp add: last_conv_nth nth_map)
    moreover have "Suc 0 \<le> length (indicators h)"
      using assms(5) by (cases "indicators h") simp_all
    ultimately show ?thesis using that n0 by (simp add: pre n_def)
  qed
  show "handle_indicator_event cmd h = (Some IndexError, h)" if "i \<le> - n"
    using that n0 by (simp add: pre n_def)
qed

text \<open>
  C10.  With the one indicator \<open>call\<close> registered, the event \<open>+CIEV:-1,1\<close> passes the
  guard \<open>indicator_idx <= len(ind_names)\<close> and reads \<open>ind_names[-2]\<close> in a list of
  length one: IndexError.  By \<open>ciev_index_cases\<close> above, an index from 1 to the number of
  indicators updates that indicator, a larger one changes nothing, 0 updates the last
  indicator, and an index at or below minus the number of indicators raises IndexError.
\<close>

theorem ciev_negative_index_raises:
  "process_trace
     [(0, ''+CIND: (\"call\",(0,1))'', [], ''RX''), (1, ''+CIEV:-1,1'', [], ''RX'')]
     (new_handler HF)
   = (Some IndexError,
      (new_handler HF)\<lparr>
        at_command_flow :=
          [\<lparr>timestamp = 0, command = ''+CIND: (\"call\",(0,1))'', response = [],
             direction = ''RX'', state_cmd = DISCONNECTED\<rparr>,
           \<lparr>timestamp = 1, command = ''+CIEV:-1,1'', response = [],
             direction = ''RX'', state_cmd = DISCONNECTED\<rparr>],
        indicators := [(''call'', \<lparr>ind_range = ''0,1'', ind_value = 0\<rparr>)]\<rparr>)"
  by (simp add: new_handler_def hfp_eval_defs)

section \<open>Properties of the hex dump\<close>

lemma py_range_eq:
  "0 < step \<Longrightarrow> py_range i stop step = map (\<lambda>k. i + step * k) [0..<(stop - i + step - 1) div step]"
proof (induction i stop step rule: py_range.induct)
  case (1 i stop step)
  show ?case
  proof (cases "i < stop")
    case True
    define m where "m = (stop - (i + step) + step - 1) div step"
    define a where "a = stop - i - 1"
    have ma: "m = a div step"
    proof (cases "i + step \<le> stop")
      case True
      then have "stop - (i + step) + step - 1 = a" using \<open>i < stop\<close> by (simp add: a_def)
      then show ?thesis by (simp add: m_def)
    next
      case False
      then have "stop - (i + step) + step - 1 = step - 1" "a < step"
        using \<open>i < stop\<close> by (simp_all add: a_def)
      then show ?thesis using "1.prems" by (simp add: m_def)
    qed
    have e: "stop - i + step - 1 = a + step" using \<open>i < stop\<close> by (simp add: a_def)
    have "(a + step) div step = Suc (a div step)" using "1.prems" by simp
    then have d: "(stop - i + step - 1) div step = Suc m"
      by (simp only: e ma)
    have ih: "py_range (i + step) stop step = map (\<lambda>k. i + step + step * k) [0..<m]"
      using "1.IH" True "1.prems" by (simp add: m_def)
    have "py_range i stop step = i # py_range (i + step) stop step"
      using True "1.prems" by (simp add: py_range.simps [of i])
    also have "\<dots> = i # map (\<lambda>k. i + step + step * k) [0..<m]" by (simp only: ih)
    also have "\<dots> = map (\<lambda>k. i + step * k) [0..<Suc m]"
      by (simp add: upt_rec [of 0 "Suc m"] map_Suc_upt [symmetric] del: upt_Suc)
    finally show ?thesis by (simp only: d)
  next
    case False
    then have "(stop - i + step - 1) div step = 0" using "1.prems" by simp
    then show ?thesis using False by (simp add: py_range.simps [of i])
  qed
qed

lemma hex_of_nat_byte_length: "n < 256 \<Longrightarrow> length (hex_of_nat n) = (if n < 16 then 1 else 2)"
proof -
  assume n: "n < 256"
  show ?thesis
  proof (cases "n < 16")
    case True
    then show ?thesis by (simp add: hex_of_nat.simps [of n])
  next
    case False
    have "n div 16 < 16" using n by simp
    then have "hex_of_nat (n div 16) = [hex_digit (n div 16)]"
      by (simp add: hex_of_nat.simps [of "n div 16"])
    then show ?thesis using False by (simp add: hex_of_nat.simps [of n])
  qed
qed

lemma fmt_02x_length: "length (fmt_02x b) = 2"
proof -
  have "unat b < 2 ^ LENGTH(8)" by (rule unsigned_less)
  then have "unat b < 256" by simp
  then show ?thesis by (auto simp: fmt_02x_def zero_pad_def hex_of_nat_byte_length)
qed

lemma join_pairs_length:
  "\<forall>p \<in> set ps. length p = 2 \<Longrightarrow> ps \<noteq> [] \<Longrightarrow> length (join '' '' ps) + 1 = 3 * length ps"
  by (induction "'' ''" ps rule: join.induct) auto

lemma hex_part_length: "chunk \<noteq> [] \<Longrightarrow> length (hex_part chunk) + 1 = 3 * length chunk"
  using join_pairs_length [of "map fmt_02x chunk"] by (simp add: hex_part_def fmt_02x_length)

lemma hex_field_length: "length chunk \<le> 16 \<Longrightarrow> length (ljust 48 (hex_part chunk)) = 48"
proof (cases "chunk = []")
  case True
  then show ?thesis by (simp add: ljust_def hex_part_def)
next
  case False
  assume "length chunk \<le> 16"
  then have "length (hex_part chunk) \<le> 48" using hex_part_length [OF False] by linarith
  then show ?thesis by (simp add: ljust_def)
qed

text \<open>
  C8, as the code has it.  For non-empty data the dump has \<open>ceil(len/16)\<close> rows; row
  \<open>k\<close> is the offset, a colon, the hex field, a space and the ASCII gutter of the
  \<open>k\<close>-th chunk of at most 16 bytes.  The hex field holds one two-digit pair per byte
  of the chunk, separated by spaces and padded with spaces to exactly 48 columns; the
  gutter holds one character per byte of the chunk (the byte's character if it is
  printable, a dot otherwise) and is not padded, so it has 16 characters only on a full
  row.
\<close>

theorem hex_dump_rows:
  assumes "data \<noteq> []"
  shows "length (dump_lines data) = (length data + 15) div 16
    \<and> (\<forall>k < length (dump_lines data).
          let chunk = take 16 (drop (16 * k) data) in
            dump_lines data ! k =
              fmt_04x (16 * k) @ '': '' @ ljust 48 (hex_part chunk) @ '' '' @ ascii_part chunk
            \<and> length chunk = min 16 (length data - 16 * k)
            \<and> 0 < length chunk
            \<and> length (hex_part chunk) + 1 = 3 * length chunk
            \<and> length (ljust 48 (hex_part chunk)) = 48
            \<and> length (ascii_part chunk) = length chunk
            \<and> (\<forall>j < length chunk.
                  ascii_part chunk ! j =
                    (if 32 \<le> unat (chunk ! j) \<and> unat (chunk ! j) < 127
                     then char_of (unat (chunk ! j)) else CHR ''.'')))"
proof -
  define rows where "rows = (length data + 15) div 16"
  have r: "py_range 0 (length data) 16 = map (\<lambda>k. 16 * k) [0..<rows]"
    using py_range_eq [of 16 0 "length data"] by (simp add: rows_def add.commute)
  have len: "length (dump_lines data) = rows" by (simp add: dump_lines_def r)
  have row: "let chunk = take 16 (drop (16 * k) data) in
            dump_lines data ! k =
              fmt_04x (16 * k) @ '': '' @ ljust 48 (hex_part chunk) @ '' '' @ ascii_part chunk
            \<and> length chunk = min 16 (length data - 16 * k)
            \<and> 0 < length chunk
            \<and> length (hex_part chunk) + 1 = 3 * length chunk
            \<and> length (ljust 48 (hex_part chunk)) = 48
            \<and> length (ascii_part chunk) = length chunk
            \<and> (\<forall>j < length chunk.
                  ascii_part chunk ! j =
                    (if 32 \<le> unat (chunk ! j) \<and> unat (chunk ! j) < 127
                     then char_of (unat (chunk ! j)) else CHR ''.''))"
    if k: "k < rows" for k
  proof -
    define chunk where "chunk = take 16 (drop (16 * k) data)"
    have lt: "16 * k < length data" using k unfolding rows_def by linarith
    have l: "length chunk = min 16 (length data - 16 * k)" by (simp add: chunk_def min.commute)
    have ne: "chunk \<noteq> []" "0 < length chunk" "length chunk \<le> 16" using lt l by auto
    have line: "dump_lines data ! k =
        fmt_04x (16 * k) @ '': '' @ ljust 48 (hex_part chunk) @ '' '' @ ascii_part chunk"
      using k by (simp add: dump_lines_def r dump_line_def Let_def chunk_def)
    have asc: "ascii_part chunk ! j =
                    (if 32 \<le> unat (chunk ! j) \<and> unat (chunk ! j) < 127
                     then char_of (unat (chunk ! j)) else CHR ''.'')" if "j < length chunk" for j
      using that by (simp add: ascii_part_def ascii_char_def)
    show ?thesis
      unfolding Let_def chunk_def [symmetric]
      using line l ne(2) hex_part_length [OF ne(1)] hex_field_length [OF ne(3)] asc
      by (simp add: ascii_part_def)
  qed
  show ?thesis unfolding len using row by (simp add: rows_def)
qed

theorem hex_dump_rows_witness:
  "length (dump_lines [0x41, 0x0A]) = 1
   \<and> dump_lines [0x41, 0x0A] ! 0 =
       fmt_04x 0 @ '': '' @ ljust 48 (hex_part [0x41, 0x0A]) @ '' '' @ ascii_part [0x41, 0x0A]
   \<and> length (ljust 48 (hex_part [0x41, 0x0A])) = 48
   \<and> length (ascii_part [0x41, 0x0A]) = 2
   \<and> ascii_part [0x41, 0x0A] ! 1 = CHR ''.''"
proof -
  have ne: "[0x41, 0x0A] \<noteq> ([] :: byte list)" by simp
  have l: "length (dump_lines [0x41, 0x0A]) = 1"
    using hex_dump_rows [OF ne] by simp
  have "(0::nat) < length (dump_lines [0x41, 0x0A])" by (simp add: l)
  with hex_dump_rows [OF ne] have
    "let chunk = take 16 (drop (16 * 0) [0x41, 0x0A :: byte]) in
            dump_lines [0x41, 0x0A] ! 0 =
              fmt_04x (16 * 0) @ '': '' @ ljust 48 (hex_part chunk) @ '' '' @ ascii_part chunk
            \<and> length chunk = min 16 (length [0x41, 0x0A :: byte] - 16 * 0)
            \<and> 0 < length chunk
            \<and> length (hex_part chunk) + 1 = 3 * length chunk
            \<and> length (ljust 48 (hex_part chunk)) = 48
            \<and> length (ascii_part chunk) = length chunk
            \<and> (\<forall>j < length chunk.
                  ascii_part chunk ! j =
                    (if 32 \<le> unat (chunk ! j) \<and> unat (chunk ! j) < 127
                     then char_of (unat (chunk ! j)) else CHR ''.''))"
    by blast
  then show ?thesis using l by (simp add: Let_def)
qed

text \<open>
  C8.  The dump of the single byte \<open>0x41\<close> is one row whose ASCII gutter is the one
  character \<open>A\<close>, not 16 characters.
\<close>

theorem hex_dump_gutter_counterexample:
  "dump_lines [0x41] = [''0000: 41'' @ replicate 46 CHR '' '' @ '' A'']
   \<and> ascii_part (take 16 (drop 0 [0x41])) = ''A''
   \<and> length (ascii_part (take 16 (drop 0 [0x41]))) \<noteq> 16"
  by code_simp

section \<open>Properties of the firmware download\<close>

lemma download_loop_sent:
  "download_loop responds fw off k0 = (finished, sent) \<Longrightarrow> j < length sent \<Longrightarrow>
     (let chunk = take 252 (drop (off + 252 * j) fw) in
        sent ! j = (0xFC20, [0x20, of_nat (length chunk mod 256), of_nat (length chunk div 256)] @ chunk)
        \<and> 0 < length chunk \<and> length chunk \<le> 252)"
proof (induction responds fw off k0 arbitrary: finished sent j rule: download_loop.induct)
  case (1 responds fw off k0)
  define chunk where "chunk = take 252 (drop off fw)"
  have lt: "off < length fw"
    using "1.prems" by (cases "off < length fw") (auto simp: download_loop.simps [of responds fw off k0])
  then have ne: "chunk \<noteq> []" and le: "length chunk \<le> 252" by (auto simp: chunk_def)
  have pk: "pack_BH 0x20 (length chunk) = Some [0x20, of_nat (length chunk mod 256), of_nat (length chunk div 256)]"
    using le by (simp add: pack_BH_def)
  define cmd where "cmd = (0xFC20 :: nat, [0x20, of_nat (length chunk mod 256), of_nat (length chunk div 256)] @ chunk)"
  show ?case
  proof (cases "responds k0")
    case False
    then have "sent = [cmd]"
      using "1.prems"(1) lt ne pk
      by (simp add: download_loop.simps [of responds fw off k0] chunk_def [symmetric] cmd_def)
    then show ?thesis using "1.prems"(2) ne le by (simp add: cmd_def chunk_def Let_def)
  next
    case True
    obtain d' s' where rec: "download_loop responds fw (off + 252) (k0 + 1) = (d', s')"
      by (cases "download_loop responds fw (off + 252) (k0 + 1)")
    have s: "sent = cmd # s'"
      using "1.prems"(1) lt ne pk True rec
      by (simp add: download_loop.simps [of responds fw off k0] chunk_def [symmetric] cmd_def)
    show ?thesis
    proof (cases j)
      case 0
      then show ?thesis using s ne le by (simp add: cmd_def chunk_def Let_def)
    next
      case (Suc i)
      then have i: "i < length s'" using "1.prems"(2) s by simp
      have "let chunk = take 252 (drop (off + 252 + 252 * i) fw) in
        s' ! i = (0xFC20, [0x20, of_nat (length chunk mod 256), of_nat (length chunk div 256)] @ chunk)
        \<and> 0 < length chunk \<and> length chunk \<le> 252"
        using "1.IH" [OF refl lt _ _ pk refl True rec i] ne by (simp add: chunk_def)
      then show ?thesis using s Suc by (simp add: Let_def add.assoc)
    qed
  qed
qed

lemma download_loop_complete:
  "\<forall>k. responds k \<Longrightarrow>
     fst (download_loop responds fw off k0)
     \<and> concat (map (\<lambda>c. drop 3 (snd c)) (snd (download_loop responds fw off k0))) = drop off fw"
proof (induction responds fw off k0 rule: download_loop.induct)
  case (1 responds fw off k0)
  show ?case
  proof (cases "off < length fw")
    case False
    then show ?thesis by (simp add: download_loop.simps [of responds fw off k0])
  next
    case True
    define chunk where "chunk = take 252 (drop off fw)"
    have ne: "chunk \<noteq> []" and le: "length chunk \<le> 252" using True by (auto simp: chunk_def)
    have pk: "pack_BH 0x20 (length chunk) = Some [0x20, of_nat (length chunk mod 256), of_nat (length chunk div 256)]"
      using le by (simp add: pack_BH_def)
    have r: "responds k0" using "1.prems" by simp
    obtain d' s' where rec: "download_loop responds fw (off + 252) (k0 + 1) = (d', s')"
      by (cases "download_loop responds fw (off + 252) (k0 + 1)")
    have ih: "d' \<and> concat (map (\<lambda>c. drop 3 (snd c)) s') = drop (off + 252) fw"
      using "1.IH" [OF refl True _ _ pk refl r "1.prems"] ne rec by (simp add: chunk_def)
    have "download_loop responds fw off k0 =
        (d', (0xFC20, [0x20, of_nat (length chunk mod 256), of_nat (length chunk div 256)] @ chunk) # s')"
      using True ne pk r rec
      by (simp add: download_loop.simps [of responds fw off k0] chunk_def [symmetric])
    moreover have "chunk @ drop (off + 252) fw = drop off fw"
      unfolding chunk_def by (metis add.commute append_take_drop_id drop_drop)
    ultimately show ?thesis using ih by simp
  qed
qed

lemma download_example:
  "download_firmware always_responds (replicate 16 0 @ [0xAB]) = (True, [(0xFC20, [0x20, 0x01, 0x00, 0xAB])])"
  by (simp add: download_firmware_def always_responds_def download_loop.simps [of _ _ 16 0]
      download_loop.simps [of _ _ 268 "Suc 0"] pack_BH_def Let_def)

text \<open>
  C2, as the code has it.  The firmware body behind the 16-byte header is sent in chunks
  of at most 252 bytes, each by the vendor command \<open>0xFC20\<close>; the payload of the
  \<open>j\<close>-th command is the constant byte \<open>0x20\<close>, the length of the chunk in sixteen
  bits with the low byte first, and the chunk \<open>fw[16 + 252 j : 16 + 252 (j + 1)]\<close>.  When
  the device answers every command, the loop runs to its end and the chunks sent make up
  the whole body.
\<close>

theorem download_chunks:
  "(\<forall>j < length (snd (download_firmware responds fw)).
      let chunk = take 252 (drop (16 + 252 * j) fw) in
        snd (download_firmware responds fw) ! j =
          (0xFC20, [0x20, of_nat (length chunk mod 256), of_nat (length chunk div 256)] @ chunk)
        \<and> 0 < length chunk \<and> length chunk \<le> 252)
   \<and> ((\<forall>k. responds k) \<longrightarrow>
         fst (download_firmware responds fw)
         \<and> concat (map (\<lambda>c. drop 3 (snd c)) (snd (download_firmware responds fw))) = drop 16 fw)"
proof -
  obtain ok sent where d: "download_loop responds fw 16 0 = (ok, sent)"
    by (cases "download_loop responds fw 16 0")
  show ?thesis
    unfolding download_firmware_def
    using download_loop_sent [OF d] download_loop_complete [of responds fw 16 0]
    by (simp add: d)
qed

theorem download_chunks_witness:
  "snd (download_firmware always_responds (replicate 16 0 @ [0xAB])) ! 0 = (0xFC20, [0x20, 0x01, 0x00, 0xAB])
   \<and> fst (download_firmware always_responds (replicate 16 0 @ [0xAB]))
   \<and> concat (map (\<lambda>c. drop 3 (snd c)) (snd (download_firmware always_responds (replicate 16 0 @ [0xAB])))) = [0xAB]"
proof -
  have l: "length (snd (download_firmware always_responds (replicate 16 0 @ [0xAB]))) = 1"
    by (simp add: download_example)
  have a: "\<forall>k. always_responds k" by (simp add: always_responds_def)
  from download_chunks [of always_responds "replicate 16 0 @ [0xAB]"] a
  have 1: "\<forall>j < length (snd (download_firmware always_responds (replicate 16 0 @ [0xAB]))).
      let chunk = take 252 (drop (16 + 252 * j) (replicate 16 0 @ [0xAB :: byte])) in
        snd (download_firmware always_responds (replicate 16 0 @ [0xAB])) ! j =
          (0xFC20, [0x20, of_nat (length chunk mod 256), of_nat (length chunk div 256)] @ chunk)
        \<and> 0 < length chunk \<and> length chunk \<le> 252"
    and 2: "fst (download_firmware always_responds (replicate 16 0 @ [0xAB]))
         \<and> concat (map (\<lambda>c. drop 3 (snd c)) (snd (download_firmware always_responds (replicate 16 0 @ [0xAB])))) = drop 16 (replicate 16 0 @ [0xAB])"
    by blast+
  from 1 l have "let chunk = take 252 (drop (16 + 252 * 0) (replicate 16 0 @ [0xAB :: byte])) in
        snd (download_firmware always_responds (replicate 16 0 @ [0xAB])) ! 0 =
          (0xFC20, [0x20, of_nat (length chunk mod 256), of_nat (length chunk div 256)] @ chunk)
        \<and> 0 < length chunk \<and> length chunk \<le> 252"
    by simp
  then show ?thesis using 2 by (simp add: Let_def)
qed

text \<open>
  C2.  The first chunk has the running index 0, and the payload of its command starts
  with \<open>0x20\<close>: the prefix byte is a constant, not the index.
\<close>

theorem download_prefix_counterexample:
  "snd (download_firmware always_responds (replicate 16 0 @ [0xAB])) = [(0xFC20, [0x20, 0x01, 0x00, 0xAB])]
   \<and> hd (snd (hd (snd (download_firmware always_responds (replicate 16 0 @ [0xAB]))))) \<noteq> 0"
  by (simp add: download_example)

section \<open>Properties of the MOS estimate\<close>

lemma py_round2_between:
  assumes "of_int n - 1 / 2 < x * 100" "x * 100 < of_int n + 1 / 2"
  shows "py_round2 x = of_int n / 100"
proof -
  define y where "y = x * 100"
  have y: "of_int n - 1 / 2 < y" "y < of_int n + 1 / 2" using assms by (simp_all add: y_def)
  consider "\<lfloor>y\<rfloor> = n" | "\<lfloor>y\<rfloor> = n - 1" using y by linarith
  then show ?thesis
  proof cases
    case 1
    then have "y - of_int \<lfloor>y\<rfloor> < 1 / 2" using y by simp
    then show ?thesis using 1 by (simp add: py_round2_def Let_def y_def [symmetric])
  next
    case 2
    then have "1 / 2 < y - of_int \<lfloor>y\<rfloor>" using y by simp
    then show ?thesis using 2 by (simp add: py_round2_def Let_def y_def [symmetric])
  qed
qed

lemma mos_900: "calculate_mos 0 0 900 = 0.99"
proof -
  have "calculate_mos 0 0 900 = py_round2 0.988839424"
    by (simp add: calculate_mos_def Let_def)
  also have "\<dots> = of_int 99 / 100" by (rule py_round2_between) simp_all
  finally show ?thesis by simp
qed

lemma mos_1000: "calculate_mos 0 0 1000 = 1"
proof -
  have "calculate_mos 0 0 1000 = py_round2 1"
    by (simp add: calculate_mos_def Let_def)
  also have "\<dots> = of_int 100 / 100" by (rule py_round2_between) simp_all
  finally show ?thesis by simp
qed

text \<open>
  C5.  With no loss, no latency and a jitter of 900 ms the R-factor is 3.2, where the
  cubic lies below 1: the score is 0.99, outside \<open>[1.0, 4.5]\<close>.  With a jitter of
  1000 ms the R-factor is negative and the score is 1.0: more jitter, a higher score.
  Both values are far from a rounding boundary, so the floating-point computation gives
  the same two results.
\<close>

theorem mos_dips_below_one:
  "calculate_mos 0 0 900 = 0.99 \<and> calculate_mos 0 0 1000 = 1
   \<and> calculate_mos 0 0 900 < 1 \<and> calculate_mos 0 0 900 < calculate_mos 0 0 1000"
  by (simp add: mos_900 mos_1000)

section \<open>Properties of the pattern analyzer\<close>

lemma py_find_Some:
  "py_find data pat s = Some p \<Longrightarrow>
     s \<le> p \<and> p + length pat \<le> length data \<and> take (length pat) (drop p data) = pat
     \<and> (\<forall>i. s \<le> i \<and> i < p \<longrightarrow> take (length pat) (drop i data) \<noteq> pat)"
proof (induction data pat s rule: py_find.induct)
  case (1 data pat s)
  show ?case
  proof (cases "take (length pat) (drop s data) = pat")
    case True
    then show ?thesis using "1.prems"
      by (auto simp: py_find.simps [of data pat s] split: if_splits)
  next
    case False
    then have a: "\<not> length data < s + length pat" and r: "py_find data pat (s + 1) = Some p"
      using "1.prems" by (auto simp: py_find.simps [of data pat s] split: if_splits)
    have ih: "s + 1 \<le> p \<and> p + length pat \<le> length data \<and> take (length pat) (drop p data) = pat
     \<and> (\<forall>i. s + 1 \<le> i \<and> i < p \<longrightarrow> take (length pat) (drop i data) \<noteq> pat)"
      using "1.IH" [OF a False r] .
    have "take (length pat) (drop i data) \<noteq> pat" if "s \<le> i \<and> i < p" for i
    proof (cases "i = s")
      case True
      then show ?thesis using False by simp
    next
      case False
      then have "s + 1 \<le> i \<and> i < p" using that by simp
      then show ?thesis using ih by blast
    qed
    then show ?thesis using ih by auto
  qed
qed

lemma py_find_None:
  "py_find data pat s = None \<Longrightarrow> s \<le> i \<Longrightarrow> i + length pat \<le> length data \<Longrightarrow>
     take (length pat) (drop i data) \<noteq> pat"
proof (induction data pat s rule: py_find.induct)
  case (1 data pat s)
  have a: "\<not> length data < s + length pat" using "1.prems" by simp
  have f: "take (length pat) (drop s data) \<noteq> pat"
    using "1.prems"(1) a by (auto simp: py_find.simps [of data pat s] split: if_splits)
  have r: "py_find data pat (s + 1) = None"
    using "1.prems"(1) a f by (simp add: py_find.simps [of data pat s])
  show ?case
  proof (cases "i = s")
    case True
    then show ?thesis using f by simp
  next
    case False
    then have "s + 1 \<le> i" using "1.prems"(2) by simp
    then show ?thesis using "1.IH" [OF a f r _ "1.prems"(3)] by simp
  qed
qed

lemma positions_from_eq:
  "positions_from data pat s =
     filter (\<lambda>i. take (length pat) (drop i data) = pat) [s..<Suc (length data) - length pat]"
proof (induction data pat s rule: positions_from.induct)
  case (1 data pat s)
  let ?P = "\<lambda>i. take (length pat) (drop i data) = pat"
  let ?N = "Suc (length data) - length pat"
  show ?case
  proof (cases "py_find data pat s")
    case None
    have "\<not> ?P i" if "i \<in> set [s..<?N]" for i
    proof -
      from that have "s \<le> i" "i + length pat \<le> length data" by auto
      then show ?thesis using py_find_None [OF None] by blast
    qed
    then have "filter ?P [s..<?N] = []" by (simp add: filter_empty_conv)
    then show ?thesis using None by (simp add: positions_from.simps [of data pat s])
  next
    case (Some p)
    note f = py_find_Some [OF Some]
    have pN: "p < ?N" "s \<le> p" using f by auto
    have split: "[s..<?N] = [s..<p] @ p # [p + 1..<?N]"
      using pN by (metis Suc_eq_plus1 le_add_diff_inverse upt_add_eq_append upt_conv_Cons less_imp_le_nat le_Suc_ex)
    have "filter ?P [s..<p] = []" using f by (auto simp: filter_empty_conv)
    moreover have "?P p" using f by simp
    ultimately have "filter ?P [s..<?N] = p # filter ?P [p + 1..<?N]"
      by (simp add: split)
    then show ?thesis using Some "1.IH" [OF Some]
      by (simp add: positions_from.simps [of data pat s])
  qed
qed

lemma scan_window_repeating:
  assumes "\<forall>e \<in> set ps. repeating data (snd e)" "start + pattern_len \<le> length data"
  shows "\<forall>e \<in> set (scan_window data pattern_len start ps). repeating data (snd e)"
proof -
  have "length (take pattern_len (drop start data)) = pattern_len"
    using assms(2) by simp
  then show ?thesis
    using assms(1) by (auto simp: scan_window_def Let_def repeating_def)
qed

lemma scan_length_repeating:
  assumes "\<forall>e \<in> set ps. repeating data (snd e)" "pattern_len \<le> length data"
  shows "\<forall>e \<in> set (scan_length data pattern_len ps). repeating data (snd e)"
  unfolding scan_length_def
proof (rule fold_invariant [where Q = "\<lambda>start. start + pattern_len \<le> length data"])
  fix start assume "start \<in> set [0..<length data - pattern_len + 1]"
  then show "start + pattern_len \<le> length data" using assms(2) by auto
next
  show "\<forall>e \<in> set ps. repeating data (snd e)" by (rule assms(1))
next
  fix start and s :: "(string \<times> Pattern) list"
  assume "start + pattern_len \<le> length data" "\<forall>e \<in> set s. repeating data (snd e)"
  then show "\<forall>e \<in> set (scan_window data pattern_len start s). repeating data (snd e)"
    using scan_window_repeating by blast
qed

lemma candidate_patterns_repeating:
  "\<forall>e \<in> set (candidate_patterns m data). repeating data (snd e)"
  unfolding candidate_patterns_def
proof (rule fold_invariant [where Q = "\<lambda>pattern_len. pattern_len \<le> length data"])
  fix pattern_len
  assume "pattern_len \<in> set [min_pattern_length m..<min (max_pattern_length m + 1) (length data div 2 + 1)]"
  then have "pattern_len \<le> length data div 2" by auto
  then show "pattern_len \<le> length data" by linarith
next
  show "\<forall>e \<in> set []. repeating data (snd e)" by simp
next
  fix pattern_len and s :: "(string \<times> Pattern) list"
  assume "pattern_len \<le> length data" "\<forall>e \<in> set s. repeating data (snd e)"
  then show "\<forall>e \<in> set (scan_length data pattern_len s). repeating data (snd e)"
    using scan_length_repeating by blast
qed

lemma set_insert_desc: "set (insert_desc k x ys) = insert x (set ys)"
  by (induction ys) auto

lemma set_sorted_desc: "set (sorted_desc k xs) = set xs"
proof -
  have "set (foldl (\<lambda>acc x. insert_desc k x acc) acc xs) = set acc \<union> set xs" for acc
    by (induction xs arbitrary: acc) (auto simp: set_insert_desc)
  then show ?thesis by (simp add: sorted_desc_def)
qed

lemma insert_desc_descending:
  assumes "sorted_wrt (\<lambda>a b. \<not> key_less (k a) (k b)) ys"
  shows "sorted_wrt (\<lambda>a b. \<not> key_less (k a) (k b)) (insert_desc k x ys)"
  using assms
proof (induction ys)
  case Nil
  then show ?case by simp
next
  case (Cons y ys)
  show ?case
  proof (cases "key_less (k y) (k x)")
    case True
    have "\<not> key_less (k x) (k z)" if "z \<in> set (y # ys)" for z
    proof -
      have "\<not> key_less (k y) (k z)" using that Cons.prems by (auto simp: key_less_def)
      then show ?thesis using True by (auto simp: key_less_def)
    qed
    then show ?thesis using True Cons.prems by simp
  next
    case False
    then show ?thesis using Cons by (auto simp: set_insert_desc)
  qed
qed

text \<open>
  The sort puts the candidates in descending order of \<open>(length, count)\<close>; that is the
  order in which the filter considers them.
\<close>

lemma sorted_desc_descending:
  "sorted_wrt (\<lambda>a b. \<not> key_less (k a) (k b)) (sorted_desc k xs)"
proof -
  have "sorted_wrt (\<lambda>a b. \<not> key_less (k a) (k b)) acc \<Longrightarrow>
      sorted_wrt (\<lambda>a b. \<not> key_less (k a) (k b)) (foldl (\<lambda>acc x. insert_desc k x acc) acc xs)"
    for acc
    by (induction xs arbitrary: acc) (auto simp: insert_desc_descending)
  then show ?thesis by (simp add: sorted_desc_def)
qed

lemma set_filter_loop: "set (filter_loop ps covered) \<subseteq> set ps"
  by (induction ps arbitrary: covered) (auto simp: Let_def)

lemma filter_loop_sorted:
  "sorted_wrt R ps \<Longrightarrow> sorted_wrt R (filter_loop ps covered)"
proof (induction ps arbitrary: covered)
  case Nil
  then show ?case by simp
next
  case (Cons p ps)
  then show ?case using set_filter_loop by (fastforce simp: Let_def)
qed

lemma filter_loop_new:
  "filter_loop ps covered = before @ p # after \<Longrightarrow>
     \<exists>x \<in> cover p. x \<notin> covered \<and> (\<forall>q \<in> set before. x \<notin> cover q)"
proof (induction ps arbitrary: covered before)
  case Nil
  then show ?case by simp
next
  case (Cons p' ps)
  define new where "new = \<Union> (set (map (pos_range p')
                        (filter (\<lambda>pos. \<not> pos_range p' pos \<subseteq> covered) (positions p'))))"
  have step: "filter_loop (p' # ps) covered =
      (if new \<noteq> {} then p' # filter_loop ps (covered \<union> new) else filter_loop ps covered)"
    by (simp only: filter_loop.simps Let_def new_def)
  have cov: "cover p' \<subseteq> covered \<union> new"
    by (auto simp: cover_def new_def)
  have newc: "new \<subseteq> cover p'" by (auto simp: cover_def new_def)
  show ?case
  proof (cases "new = {}")
    case True
    then have "filter_loop ps covered = before @ p # after"
      using Cons.prems by (simp only: step if_False simp_thms)
    then show ?thesis by (rule Cons.IH)
  next
    case False
    then have eq: "p' # filter_loop ps (covered \<union> new) = before @ p # after"
      using Cons.prems by (simp only: step if_True simp_thms)
    show ?thesis
    proof (cases before)
      case Nil
      then have p: "p = p'" using eq by simp
      from False obtain pos where pos: "pos \<in> set (positions p')" "\<not> pos_range p' pos \<subseteq> covered"
        by (auto simp: new_def)
      then obtain x where "x \<in> pos_range p' pos" "x \<notin> covered" by blast
      then have "x \<in> cover p'" "x \<notin> covered" using pos(1) by (auto simp: cover_def)
      then show ?thesis using Nil p by auto
    next
      case (Cons b bs)
      then have b: "b = p'" and rest: "filter_loop ps (covered \<union> new) = bs @ p # after"
        using eq by simp_all
      from Cons.IH [OF rest] obtain x where x: "x \<in> cover p" "x \<notin> covered \<union> new"
        "\<forall>q \<in> set bs. x \<notin> cover q" by blast
      then have "x \<notin> cover p'" using cov by blast
      then show ?thesis using x Cons b by auto
    qed
  qed
qed

lemma length_insert_desc: "length (insert_desc k x ys) = Suc (length ys)"
  by (induction ys) auto

lemma length_sorted_desc: "length (sorted_desc k xs) = length xs"
proof -
  have "length (foldl (\<lambda>acc x. insert_desc k x acc) acc xs) = length acc + length xs" for acc
    by (induction xs arbitrary: acc) (auto simp: length_insert_desc)
  then show ?thesis by (simp add: sorted_desc_def)
qed

lemma filter_loop_Cons:
  "filter_loop (p # ps) C =
     (if \<exists>pos \<in> set (positions p). \<not> pos_range p pos \<subseteq> C
      then p # filter_loop ps (C \<union> cover p) else filter_loop ps C)"
proof -
  define new where "new = \<Union> (set (map (pos_range p)
                        (filter (\<lambda>pos. \<not> pos_range p pos \<subseteq> C) (positions p))))"
  have step: "filter_loop (p # ps) C =
      (if new \<noteq> {} then p # filter_loop ps (C \<union> new) else filter_loop ps C)"
    by (simp only: filter_loop.simps Let_def new_def)
  have cov: "cover p \<subseteq> C \<union> new" by (auto simp: cover_def new_def)
  have newc: "new \<subseteq> cover p" by (auto simp: cover_def new_def)
  have un: "C \<union> new = C \<union> cover p" using cov newc by blast
  have ne: "new \<noteq> {} \<longleftrightarrow> (\<exists>pos \<in> set (positions p). \<not> pos_range p pos \<subseteq> C)"
    by (auto simp: new_def)
  show ?thesis by (simp only: step un ne)
qed

lemma not_adding_covered:
  "\<not> (\<exists>pos \<in> set (positions p). \<not> pos_range p pos \<subseteq> C) \<Longrightarrow> cover p \<subseteq> C"
  by (auto simp: cover_def)

lemma filter_loop_append:
  "filter_loop (xs @ ys) C =
     filter_loop xs C @ filter_loop ys (C \<union> \<Union> (cover ` set (filter_loop xs C)))"
proof (induction xs arbitrary: C)
  case Nil
  then show ?case by simp
next
  case (Cons p xs)
  show ?case
  proof (cases "\<exists>pos \<in> set (positions p). \<not> pos_range p pos \<subseteq> C")
    case True
    then have a: "filter_loop (p # xs) C = p # filter_loop xs (C \<union> cover p)"
      and b: "filter_loop (p # xs @ ys) C = p # filter_loop (xs @ ys) (C \<union> cover p)"
      by (simp_all only: filter_loop_Cons if_True)
    show ?thesis using Cons.IH [of "C \<union> cover p"] by (simp add: a b Un_assoc del: filter_loop.simps)
  next
    case False
    then have a: "filter_loop (p # xs) C = filter_loop xs C"
      and b: "filter_loop (p # xs @ ys) C = filter_loop (xs @ ys) C"
      by (simp_all only: filter_loop_Cons if_False)
    show ?thesis using Cons.IH [of C] by (simp add: a b del: filter_loop.simps)
  qed
qed

lemma filter_loop_dropped:
  assumes "ps = before @ c # after" "c \<notin> set (filter_loop ps C)"
  shows "cover c \<subseteq> C \<union> \<Union> (cover ` set (filter_loop before C))"
proof -
  define C' where "C' = C \<union> \<Union> (cover ` set (filter_loop before C))"
  have "filter_loop ps C = filter_loop before C @ filter_loop (c # after) C'"
    unfolding assms(1) C'_def by (rule filter_loop_append)
  then have n: "c \<notin> set (filter_loop (c # after) C')" using assms(2) by simp
  have "\<not> (\<exists>pos \<in> set (positions c). \<not> pos_range c pos \<subseteq> C')"
  proof
    assume "\<exists>pos \<in> set (positions c). \<not> pos_range c pos \<subseteq> C'"
    then have "filter_loop (c # after) C' = c # filter_loop after (C' \<union> cover c)"
      by (simp only: filter_loop_Cons if_True)
    then show False using n by simp
  qed
  then show ?thesis unfolding C'_def [symmetric] by (rule not_adding_covered)
qed

lemma candidate_patterns_short:
  assumes "data = [] \<or> length data < min_pattern_length m"
  shows "candidate_patterns m data = []"
proof (cases "length data < min_pattern_length m")
  case True
  then have "length data div 2 < min_pattern_length m" by linarith
  then have "[min_pattern_length m..<min (max_pattern_length m + 1) (length data div 2 + 1)] = []"
    by simp
  then show ?thesis by (simp add: candidate_patterns_def)
next
  case False
  then have d: "data = []" and m0: "min_pattern_length m = 0" using assms by auto
  have r: "[min_pattern_length m..<min (max_pattern_length m + 1) (length data div 2 + 1)] = [0]"
    by (simp add: d m0)
  have "find_pattern_positions [] [] = [0]"
    by (simp add: find_pattern_positions_def positions_from_eq)
  then have "scan_window [] 0 0 [] = []"
    by (simp add: scan_window_def Let_def hex_bytes_def)
  then show ?thesis
    unfolding candidate_patterns_def r by (simp add: d scan_length_def)
qed

lemma key_order_unfold:
  "(\<lambda>a b. \<not> key_less (length_pat a, count a) (length_pat b, count b)) =
   (\<lambda>a b :: Pattern. length_pat b < length_pat a \<or> (length_pat b = length_pat a \<and> count b \<le> count a))"
  by (auto simp: key_less_def fun_eq_iff)

lemma analyze_patterns_set:
  "set (analyze_patterns m data) = set (find_all_patterns m data)"
proof (cases "data = [] \<or> length data < min_pattern_length m")
  case True
  then show ?thesis
    by (simp add: analyze_patterns_def find_all_patterns_def filter_overlapping_patterns_def
        candidate_patterns_short sorted_desc_def)
next
  case False
  then show ?thesis by (simp add: analyze_patterns_def set_sorted_desc)
qed

text \<open>
  C6.  For every input, every pattern in the output of the analyzer is one of the
  candidates, has a count of at least two, the count being the number of its positions
  and the positions being all (possibly overlapping) occurrences of its bytes in the
  data.  The filter considers the candidates in descending order of length and, among
  candidates of one length, in descending order of count: the patterns it keeps are what
  the loop makes of the candidates in that order.  So every pattern of the output covers
  a byte position that no longer pattern of the output covers, nor any pattern of the
  output of the same length and a higher count; and a candidate that is not in the
  output is covered entirely by patterns of the output that are at least as long and,
  if of the same length, occur at least as often.
\<close>

theorem patterns_repeat_and_add_coverage:
  "(\<forall>p \<in> set (analyze_patterns m data).
      2 \<le> count p \<and> count p = length (positions p)
      \<and> positions p =
          filter (\<lambda>i. take (length_pat p) (drop i data) = pattern p)
            [0..<Suc (length data) - length_pat p]
      \<and> p \<in> set (map snd (candidate_patterns m data))
      \<and> (\<exists>x \<in> cover p.
            \<forall>q \<in> set (analyze_patterns m data).
              length_pat p < length_pat q \<or> (length_pat p = length_pat q \<and> count p < count q)
              \<longrightarrow> x \<notin> cover q))
   \<and> (\<forall>c \<in> set (map snd (candidate_patterns m data)).
         c \<notin> set (analyze_patterns m data) \<longrightarrow>
         cover c \<subseteq>
           \<Union> (cover ` {q \<in> set (analyze_patterns m data).
                        length_pat c < length_pat q
                        \<or> (length_pat c = length_pat q \<and> count c \<le> count q)}))
   \<and> (\<exists>considered.
         set considered = set (map snd (candidate_patterns m data))
         \<and> length considered = length (candidate_patterns m data)
         \<and> sorted_wrt (\<lambda>a b. length_pat b < length_pat a \<or> (length_pat b = length_pat a \<and> count b \<le> count a)) considered
         \<and> find_all_patterns m data = filter_loop considered {}
         \<and> set (analyze_patterns m data) = set (find_all_patterns m data))"
proof -
  define k where "k = (\<lambda>p :: Pattern. (length_pat p, count p))"
  define cands where "cands = map snd (candidate_patterns m data)"
  define srt where "srt = sorted_desc k cands"
  define kept where "kept = filter_loop srt {}"
  have fa: "find_all_patterns m data = kept"
    by (simp add: find_all_patterns_def filter_overlapping_patterns_def srt_def k_def cands_def
        kept_def)
  have out: "set (analyze_patterns m data) = set kept"
    using analyze_patterns_set [of m data] by (simp add: fa)
  have srt_set: "set srt = set cands" unfolding srt_def by (rule set_sorted_desc)
  have srt_len: "length srt = length (candidate_patterns m data)"
    unfolding srt_def by (simp add: length_sorted_desc cands_def)
  have srt_sorted: "sorted_wrt (\<lambda>a b. \<not> key_less (k a) (k b)) srt"
    unfolding srt_def by (rule sorted_desc_descending)
  have kept_sorted: "sorted_wrt (\<lambda>a b. \<not> key_less (k a) (k b)) kept"
    unfolding kept_def using srt_sorted by (rule filter_loop_sorted)
  have kept_sub: "set kept \<subseteq> set cands"
    unfolding kept_def using set_filter_loop [of srt "{}"] srt_set by simp
  have part1: "2 \<le> count p \<and> count p = length (positions p)
      \<and> positions p =
          filter (\<lambda>i. take (length_pat p) (drop i data) = pattern p)
            [0..<Suc (length data) - length_pat p]
      \<and> p \<in> set cands
      \<and> (\<exists>x \<in> cover p.
            \<forall>q \<in> set kept.
              length_pat p < length_pat q \<or> (length_pat p = length_pat q \<and> count p < count q)
              \<longrightarrow> x \<notin> cover q)"
    if p: "p \<in> set kept" for p
  proof -
    have pc: "p \<in> set cands" using p kept_sub by blast
    then have r: "repeating data p"
      using candidate_patterns_repeating [of m data] by (auto simp: cands_def)
    have a: "positions p = find_pattern_positions data (pattern p)"
      and b: "2 \<le> length (positions p)" and c: "count p = length (positions p)"
      and d: "length_pat p = length (pattern p)"
      using r unfolding repeating_def by blast+
    have e: "positions p =
         filter (\<lambda>i. take (length_pat p) (drop i data) = pattern p)
           [0..<Suc (length data) - length_pat p]"
      unfolding d a find_pattern_positions_def by (rule positions_from_eq)
    have f: "2 \<le> count p" using b c by simp
    from p obtain before after where dec: "kept = before @ p # after"
      by (auto simp: in_set_conv_decomp)
    from filter_loop_new [OF dec [unfolded kept_def]]
    obtain x where x: "x \<in> cover p" "\<forall>q \<in> set before. x \<notin> cover q" by blast
    have "x \<notin> cover q"
      if q: "q \<in> set kept"
        "length_pat p < length_pat q \<or> (length_pat p = length_pat q \<and> count p < count q)" for q
    proof -
      have kl: "key_less (k p) (k q)" using q(2) by (auto simp: key_less_def k_def)
      have "\<forall>b \<in> set after. \<not> key_less (k p) (k b)"
        using kept_sorted unfolding dec by (simp add: sorted_wrt_append)
      then have "q \<notin> set after" using kl by blast
      moreover have "q \<noteq> p" using q(2) by auto
      ultimately have "q \<in> set before" using q(1) unfolding dec by auto
      then show ?thesis using x(2) by blast
    qed
    then have g: "\<exists>x \<in> cover p.
            \<forall>q \<in> set kept.
              length_pat p < length_pat q \<or> (length_pat p = length_pat q \<and> count p < count q)
              \<longrightarrow> x \<notin> cover q"
      using x(1) by blast
    show ?thesis using f c e pc g by (intro conjI)
  qed
  have part2: "cover c \<subseteq>
           \<Union> (cover ` {q \<in> set kept.
                        length_pat c < length_pat q
                        \<or> (length_pat c = length_pat q \<and> count c \<le> count q)})"
    if c: "c \<in> set cands" "c \<notin> set kept" for c
  proof -
    have "c \<in> set srt" using c(1) srt_set by simp
    then obtain before after where dec: "srt = before @ c # after"
      by (auto simp: in_set_conv_decomp)
    have cov: "cover c \<subseteq> \<Union> (cover ` set (filter_loop before {}))"
      using filter_loop_dropped [OF dec c(2) [unfolded kept_def]] by simp
    have "q \<in> set kept \<and> (length_pat c < length_pat q
                        \<or> (length_pat c = length_pat q \<and> count c \<le> count q))"
      if q: "q \<in> set (filter_loop before {})" for q
    proof -
      have "kept = filter_loop before {} @ filter_loop (c # after)
                 ({} \<union> \<Union> (cover ` set (filter_loop before {})))"
        unfolding kept_def dec by (rule filter_loop_append)
      then have qk: "q \<in> set kept" using q by simp
      have "q \<in> set before" using q set_filter_loop by blast
      then have "\<not> key_less (k q) (k c)"
        using srt_sorted unfolding dec by (simp add: sorted_wrt_append)
      then show ?thesis using qk by (auto simp: key_less_def k_def)
    qed
    then show ?thesis using cov by blast
  qed
  have part3: "set srt = set (map snd (candidate_patterns m data))
         \<and> length srt = length (candidate_patterns m data)
         \<and> sorted_wrt (\<lambda>a b. length_pat b < length_pat a \<or> (length_pat b = length_pat a \<and> count b \<le> count a)) srt
         \<and> find_all_patterns m data = filter_loop srt {}
         \<and> set (analyze_patterns m data) = set (find_all_patterns m data)"
    using srt_set srt_len srt_sorted fa out
    by (simp add: cands_def kept_def k_def key_order_unfold)
  show ?thesis
    unfolding out cands_def [symmetric]
    using part1 part2 part3 [unfolded out cands_def [symmetric]] by blast
qed

lemma analyze_example:
  "analyze_patterns default_matcher [1, 2, 3, 1, 2, 3, 9, 9, 4, 9, 9] =
     [\<lparr>pattern = [1, 2, 3], hex_pattern = ''010203'', positions = [0, 3], length_pat = 3,
        count = 2, frequency = 2 / 9\<rparr>,
      \<lparr>pattern = [9, 9], hex_pattern = ''0909'', positions = [6, 9], length_pat = 2,
        count = 2, frequency = 1 / 5\<rparr>]"
  by code_simp

lemma candidates_example:
  "map snd (candidate_patterns default_matcher [1, 2, 3, 1, 2, 3, 9, 9, 4, 9, 9]) =
     [\<lparr>pattern = [1, 2], hex_pattern = ''0102'', positions = [0, 3], length_pat = 2,
        count = 2, frequency = 1 / 5\<rparr>,
      \<lparr>pattern = [2, 3], hex_pattern = ''0203'', positions = [1, 4], length_pat = 2,
        count = 2, frequency = 1 / 5\<rparr>,
      \<lparr>pattern = [9, 9], hex_pattern = ''0909'', positions = [6, 9], length_pat = 2,
        count = 2, frequency = 1 / 5\<rparr>,
      \<lparr>pattern = [1, 2, 3], hex_pattern = ''010203'', positions = [0, 3], length_pat = 3,
        count = 2, frequency = 2 / 9\<rparr>]"
  by code_simp

theorem patterns_repeat_and_add_coverage_witness:
  "analyze_patterns default_matcher [1, 2, 3, 1, 2, 3, 9, 9, 4, 9, 9] =
     [\<lparr>pattern = [1, 2, 3], hex_pattern = ''010203'', positions = [0, 3], length_pat = 3,
        count = 2, frequency = 2 / 9\<rparr>,
      \<lparr>pattern = [9, 9], hex_pattern = ''0909'', positions = [6, 9], length_pat = 2,
        count = 2, frequency = 1 / 5\<rparr>]
   \<and> 2 \<le> count \<lparr>pattern = [9, 9], hex_pattern = ''0909'', positions = [6, 9], length_pat = 2,
        count = 2, frequency = 1 / 5\<rparr>
   \<and> (\<exists>x \<in> cover \<lparr>pattern = [9, 9], hex_pattern = ''0909'', positions = [6, 9], length_pat = 2,
        count = 2, frequency = 1 / 5\<rparr>.
         x \<notin> cover \<lparr>pattern = [1, 2, 3], hex_pattern = ''010203'', positions = [0, 3], length_pat = 3,
        count = 2, frequency = 2 / 9\<rparr>)
   \<and> \<lparr>pattern = [1, 2], hex_pattern = ''0102'', positions = [0, 3], length_pat = 2,
        count = 2, frequency = 1 / 5\<rparr>
       \<in> set (map snd (candidate_patterns default_matcher [1, 2, 3, 1, 2, 3, 9, 9, 4, 9, 9]))
   \<and> \<lparr>pattern = [1, 2], hex_pattern = ''0102'', positions = [0, 3], length_pat = 2,
        count = 2, frequency = 1 / 5\<rparr>
       \<notin> set (analyze_patterns default_matcher [1, 2, 3, 1, 2, 3, 9, 9, 4, 9, 9])
   \<and> cover \<lparr>pattern = [1, 2], hex_pattern = ''0102'', positions = [0, 3], length_pat = 2,
        count = 2, frequency = 1 / 5\<rparr>
       \<subseteq> cover \<lparr>pattern = [1, 2, 3], hex_pattern = ''010203'', positions = [0, 3], length_pat = 3,
        count = 2, frequency = 2 / 9\<rparr>
         \<union> cover \<lparr>pattern = [9, 9], hex_pattern = ''0909'', positions = [6, 9], length_pat = 2,
        count = 2, frequency = 1 / 5\<rparr>"
proof -
  define p where "p = \<lparr>pattern = [9, 9], hex_pattern = ''0909'', positions = [6, 9], length_pat = 2,
        count = 2, frequency = 1 / 5\<rparr>"
  define q where "q = \<lparr>pattern = [1, 2, 3], hex_pattern = ''010203'', positions = [0, 3], length_pat = 3,
        count = 2, frequency = 2 / 9\<rparr>"
  define c where "c = \<lparr>pattern = [1, 2], hex_pattern = ''0102'', positions = [0, 3], length_pat = 2,
        count = 2, frequency = 1 / 5\<rparr>"
  define out where "out = analyze_patterns default_matcher [1, 2, 3, 1, 2, 3, 9, 9, 4, 9, 9]"
  have res: "out = [q, p]"
    unfolding p_def q_def out_def by (rule analyze_example)
  have mp: "p \<in> set out" and mq: "q \<in> set out" by (simp_all add: res)
  have mc: "c \<in> set (map snd (candidate_patterns default_matcher [1, 2, 3, 1, 2, 3, 9, 9, 4, 9, 9]))"
    unfolding c_def by (simp only: candidates_example) simp
  have nc: "c \<notin> set out" by (simp add: res c_def p_def q_def)
  have lt: "length_pat p < length_pat q \<or> (length_pat p = length_pat q \<and> count p < count q)"
    by (simp add: p_def q_def)
  note t = patterns_repeat_and_add_coverage [of default_matcher "[1, 2, 3, 1, 2, 3, 9, 9, 4, 9, 9]", folded out_def]
  from t mp have cnt: "2 \<le> count p"
    and x: "\<exists>x \<in> cover p. \<forall>q \<in> set out.
              length_pat p < length_pat q \<or> (length_pat p = length_pat q \<and> count p < count q)
              \<longrightarrow> x \<notin> cover q"
    by blast+
  from x mq lt have new: "\<exists>x \<in> cover p. x \<notin> cover q" by blast
  from t mc nc have "cover c \<subseteq> \<Union> (cover ` {q \<in> set out.
                        length_pat c < length_pat q
                        \<or> (length_pat c = length_pat q \<and> count c \<le> count q)})"
    by blast
  then have sub: "cover c \<subseteq> cover q \<union> cover p" by (auto simp: res)
  show ?thesis
    using res cnt new mc nc sub unfolding out_def p_def q_def c_def by (intro conjI)
qed

end
